theory Spec2Isabelle
  imports Main
begin

section \<open>The fake clock of package fakeclock\<close>

text \<open>
  The development embeds \<^verbatim>\<open>fakeclock/fakeclock.go\<close>. The clock keeps its time as a
  \<^verbatim>\<open>time.Time\<close> and moves it with \<^verbatim>\<open>Time.Add\<close>, so the part of Go's \<^verbatim>\<open>time\<close> package
  that the clock calls comes first.
\<close>

subsection \<open>Instants and durations of Go's time package\<close>

text \<open>
  A \<^verbatim>\<open>time.Duration\<close> is a 64-bit count of nanoseconds. A \<^verbatim>\<open>time.Time\<close> without a
  monotonic clock reading (what \<^verbatim>\<open>time.Unix\<close>, \<^verbatim>\<open>time.Date\<close> and parsing return, and what
  \<^verbatim>\<open>Add\<close> returns for such a time) holds a 64-bit count of seconds since January 1 of
  year 1 (the field \<^verbatim>\<open>ext\<close>) and the nanoseconds within that second (30 bits of the field
  \<^verbatim>\<open>wall\<close>). Times with a monotonic reading, as \<^verbatim>\<open>time.Now\<close> returns, are not modelled.
  The 64-bit arithmetic is written out on integers: \<open>wrap64\<close> is what a 64-bit signed
  addition keeps of the exact sum, and \<^verbatim>\<open>/\<close> and \<^verbatim>\<open>%\<close> truncate towards zero.
  A duration is taken as an integer: what holds for every integer holds for the 64-bit
  ones, and a property that needs the bound \<open>maxInt64\<close> on a duration states it.
\<close>

type_synonym Duration = int

record Time =
  time_ext :: int
  time_nsec :: int

definition maxInt64 :: int where
  "maxInt64 = 9223372036854775807"

definition minInt64 :: int where
  "minInt64 = - 9223372036854775808"

definition wrap64 :: "int \<Rightarrow> int" where
  "wrap64 x = (x + 9223372036854775808) mod 18446744073709551616 - 9223372036854775808"

definition go_quot :: "int \<Rightarrow> int \<Rightarrow> int" where
  "go_quot a b = sgn a * sgn b * (\<bar>a\<bar> div \<bar>b\<bar>)"

definition go_rem :: "int \<Rightarrow> int \<Rightarrow> int" where
  "go_rem a b = a - b * go_quot a b"

text \<open>
  What a \<^verbatim>\<open>time.Time\<close> can hold: every function of the package returns such a value.
\<close>

definition valid_time :: "Time \<Rightarrow> bool" where
  "valid_time t \<longleftrightarrow>
     minInt64 \<le> time_ext t \<and> time_ext t \<le> maxInt64 \<and> 0 \<le> time_nsec t \<and> time_nsec t < 1000000000"

text \<open>
  \<^verbatim>\<open>Time.addSec\<close>, the branch of a time without monotonic reading: the sum of the seconds
  is kept when the 64-bit addition did not overflow, and replaced by the largest (or
  the negated largest) 64-bit value when it did.
\<close>

definition Time_addSec :: "Time \<Rightarrow> int \<Rightarrow> Time" where
  "Time_addSec t d =
     (let sum = wrap64 (time_ext t + d)
      in if (sum > time_ext t) = (d > 0) then t\<lparr>time_ext := sum\<rparr>
         else if d > 0 then t\<lparr>time_ext := maxInt64\<rparr>
         else t\<lparr>time_ext := - maxInt64\<rparr>)"

text \<open>
  \<^verbatim>\<open>Time.Add\<close>: the nanoseconds are added and carried first and written to the time,
  then \<^verbatim>\<open>addSec\<close> adds the seconds.
\<close>

definition Time_Add :: "Time \<Rightarrow> Duration \<Rightarrow> Time" where
  "Time_Add t d =
     (let dsec = go_quot d 1000000000;
          nsec = time_nsec t + go_rem d 1000000000;
          (dsec, nsec) = (if nsec \<ge> 1000000000 then (dsec + 1, nsec - 1000000000)
                          else if nsec < 0 then (dsec - 1, nsec + 1000000000)
                          else (dsec, nsec))
      in Time_addSec (t\<lparr>time_nsec := nsec\<rparr>) dsec)"

definition Time_Before :: "Time \<Rightarrow> Time \<Rightarrow> bool" where
  "Time_Before t u \<longleftrightarrow>
     time_ext t < time_ext u \<or> time_ext t = time_ext u \<and> time_nsec t < time_nsec u"

text \<open>\<^verbatim>\<open>time.Unix\<close>, which the package's tests use for their base time.\<close>

definition unixToInternal :: int where
  "unixToInternal = 62135596800"

definition Time_Unix :: "int \<Rightarrow> int \<Rightarrow> Time" where
  "Time_Unix sec nsec =
     (let (sec, nsec) =
            (if nsec < 0 \<or> nsec \<ge> 1000000000 then
               (let n = go_quot nsec 1000000000;
                    sec = wrap64 (sec + n);
                    nsec = nsec - n * 1000000000
                in if nsec < 0 then (wrap64 (sec - 1), nsec + 1000000000) else (sec, nsec))
             else (sec, nsec))
      in \<lparr>time_ext = wrap64 (sec + unixToInternal), time_nsec = nsec\<rparr>)"

text \<open>The base time of the package's tests, \<^verbatim>\<open>time.Unix(1136214245, 0)\<close>.\<close>

definition baseTime :: Time where
  "baseTime = Time_Unix 1136214245 0"

text \<open>
  The place of a time on the line of nanoseconds, and the times before the last second
  that a \<^verbatim>\<open>time.Time\<close> can hold: up to there \<^verbatim>\<open>Add\<close> is exact, beyond it \<^verbatim>\<open>Add\<close>
  stays in the last second.
\<close>

definition instant :: "Time \<Rightarrow> int" where
  "instant t = time_ext t * 1000000000 + time_nsec t"

definition last_second :: int where
  "last_second = maxInt64 * 1000000000"

definition early :: "Time \<Rightarrow> bool" where
  "early t \<longleftrightarrow> time_ext t < maxInt64"

subsection \<open>Channels\<close>

text \<open>
  A channel \<^verbatim>\<open>make(chan time.Time, 1)\<close> is its one-slot buffer: operations run one after
  the other, so no receiver is waiting while the clock sends. The clock only ever sends
  with \<^verbatim>\<open>select { case c <- now: default: }\<close>: the value is stored when the slot is free and
  dropped otherwise.
\<close>

type_synonym chan = "Time option"

definition chan_send :: "chan \<Rightarrow> Time \<Rightarrow> chan" where
  "chan_send ch v = (case ch of None \<Rightarrow> Some v | Some u \<Rightarrow> Some u)"

text \<open>A receive that does not block, as the tests' \<^verbatim>\<open>select\<close> with a default branch.\<close>

definition chan_recv :: "chan \<Rightarrow> Time option \<times> chan" where
  "chan_recv ch = (ch, None)"

subsection \<open>Data\<close>

text \<open>
  The structs \<^verbatim>\<open>timer\<close>, \<^verbatim>\<open>ticker\<close>, \<^verbatim>\<open>state\<close> and \<^verbatim>\<open>Clock\<close>. Field names carry
  the struct's name, since a record field is a global constant. The \<^verbatim>\<open>clock\<close> back
  pointer of a timer or ticker is left out: there is one clock. The mutex is left out:
  operations run one after the other.
\<close>

record timer =
  timer_c :: chan
  timer_time :: Time
  timer_fired :: bool

record ticker =
  ticker_c :: chan
  ticker_d :: Duration
  ticker_next :: Time

text \<open>
  The slices hold pointers: an address, or \<^verbatim>\<open>nil\<close> (\<open>None\<close>).
\<close>

type_synonym ptr = "nat option"

record state =
  state_t :: Time
  state_timers :: "ptr list"
  state_tickers :: "ptr list"

text \<open>
  The watch callback is user code; it is known by an identifier, and each call of it
  is recorded with its argument. What the callback does when called is not modelled.
\<close>

record Clock =
  clock_step :: Duration
  clock_state :: state
  clock_watch :: "nat option"

text \<open>
  The clock together with the objects it points to: the timers and tickers allocated
  so far (addresses below \<open>timer_top\<close> and \<open>ticker_top\<close>), and the calls made to the
  watch callback, oldest first.
\<close>

record world =
  clk :: Clock
  timer_mem :: "nat \<Rightarrow> timer"
  timer_top :: nat
  ticker_mem :: "nat \<Rightarrow> ticker"
  ticker_top :: nat
  watch_calls :: "(nat \<times> Duration) list"

datatype error = Panic string | Nontermination | InvalidHandle | InvalidTime

definition now_of :: "world \<Rightarrow> Time" where
  "now_of w = state_t (clock_state (clk w))"

definition timers_of :: "world \<Rightarrow> ptr list" where
  "timers_of w = state_timers (clock_state (clk w))"

definition tickers_of :: "world \<Rightarrow> ptr list" where
  "tickers_of w = state_tickers (clock_state (clk w))"

definition set_state :: "state \<Rightarrow> world \<Rightarrow> world" where
  "set_state s w = w\<lparr>clk := (clk w)\<lparr>clock_state := s\<rparr>\<rparr>"

subsection \<open>Timers\<close>

definition timer_fire :: "timer \<Rightarrow> Time \<Rightarrow> timer" where
  "timer_fire tm now = tm\<lparr>timer_c := chan_send (timer_c tm) now, timer_fired := True\<rparr>"

definition timer_update :: "timer \<Rightarrow> Time \<Rightarrow> timer \<times> bool" where
  "timer_update tm now =
     (if timer_fired tm \<or> Time_Before now (timer_time tm) then (tm, False)
      else (timer_fire tm now, True))"

definition timer_init :: "timer \<Rightarrow> Time \<Rightarrow> Duration \<Rightarrow> timer \<times> bool" where
  "timer_init tm now d =
     (let tm' = (if d > 0 then tm\<lparr>timer_time := Time_Add now d, timer_fired := False\<rparr>
                 else timer_fire (tm\<lparr>timer_time := now\<rparr>) now)
      in (tm', \<not> timer_fired tm'))"

subsection \<open>Tickers\<close>

text \<open>
  The loop \<^verbatim>\<open>for !now.Before(t.next) { t.next = t.next.Add(t.d) }\<close>. Nothing in
  \<^verbatim>\<open>update\<close> bounds it: when no number of additions brings \<^verbatim>\<open>next\<close> past \<^verbatim>\<open>now\<close> it
  runs forever, which is the value \<open>None\<close>.
\<close>

partial_function (option) ticker_forward :: "Time \<Rightarrow> ticker \<Rightarrow> ticker option" where
  "ticker_forward now tk =
     (if \<not> Time_Before now (ticker_next tk)
      then ticker_forward now (tk\<lparr>ticker_next := Time_Add (ticker_next tk) (ticker_d tk)\<rparr>)
      else Some tk)"

declare ticker_forward.simps [code]

definition ticker_update :: "ticker \<Rightarrow> Time \<Rightarrow> (ticker \<times> Duration) option" where
  "ticker_update tk now =
     (if Time_Before now (ticker_next tk) then Some (tk, 0)
      else (case ticker_forward now (tk\<lparr>ticker_c := chan_send (ticker_c tk) now\<rparr>) of
              None \<Rightarrow> None
            | Some tk' \<Rightarrow> Some (tk', ticker_d tk')))"

subsection \<open>The state\<close>

definition nil_deref :: error where
  "nil_deref = Panic ''runtime error: invalid memory address or nil pointer dereference''"

definition slice_bounds :: error where
  "slice_bounds = Panic ''runtime error: slice bounds out of range''"

text \<open>
  \<^verbatim>\<open>notifyTimers\<close> compacts the slice in place: the timer read at index \<open>i\<close> is written
  back at \<open>nleft \<le> i\<close>, so no write reaches an element still to be read, and the loop is
  a pass over the old elements that collects the kept ones (\<open>left\<close>) in order.
\<close>

fun notifyTimers_loop ::
  "Time \<Rightarrow> ptr list \<Rightarrow> (nat \<Rightarrow> timer) \<Rightarrow> ptr list \<Rightarrow> error + (nat \<Rightarrow> timer) \<times> ptr list" where
  "notifyTimers_loop now [] mem left = Inr (mem, left)"
| "notifyTimers_loop now (None # us) mem left = Inl nil_deref"
| "notifyTimers_loop now (Some p # us) mem left =
     (case timer_update (mem p) now of
        (tm', done) \<Rightarrow>
          notifyTimers_loop now us (mem(p := tm')) (if \<not> done then left @ [Some p] else left))"

definition notifyTimers :: "world \<Rightarrow> error + world" where
  "notifyTimers w =
     (case notifyTimers_loop (now_of w) (timers_of w) (timer_mem w) [] of
        Inl e \<Rightarrow> Inl e
      | Inr (mem', left) \<Rightarrow>
          Inr (set_state ((clock_state (clk w))\<lparr>state_timers := left\<rparr>) (w\<lparr>timer_mem := mem'\<rparr>)))"

fun notifyTickers_loop ::
  "Time \<Rightarrow> ptr list \<Rightarrow> (nat \<Rightarrow> ticker) \<Rightarrow> Duration list \<Rightarrow>
     error + (nat \<Rightarrow> ticker) \<times> Duration list" where
  "notifyTickers_loop now [] mem watches = Inr (mem, watches)"
| "notifyTickers_loop now (None # us) mem watches = Inl nil_deref"
| "notifyTickers_loop now (Some k # us) mem watches =
     (case ticker_update (mem k) now of
        None \<Rightarrow> Inl Nontermination
      | Some (tk', d) \<Rightarrow>
          notifyTickers_loop now us (mem(k := tk')) (if d \<noteq> 0 then watches @ [d] else watches))"

definition notifyTickers :: "world \<Rightarrow> error + Duration list \<times> world" where
  "notifyTickers w =
     (case notifyTickers_loop (now_of w) (tickers_of w) (ticker_mem w) [] of
        Inl e \<Rightarrow> Inl e
      | Inr (mem', watches) \<Rightarrow> Inr (watches, w\<lparr>ticker_mem := mem'\<rparr>))"

definition addTimer :: "state \<Rightarrow> nat \<Rightarrow> state" where
  "addTimer s t =
     (if Some t \<in> set (state_timers s) then s
      else s\<lparr>state_timers := state_timers s @ [Some t]\<rparr>)"

text \<open>
  The body shared by \<^verbatim>\<open>removeTimer\<close> and \<^verbatim>\<open>removeTicker\<close>. The \<^verbatim>\<open>range\<close> clause reads
  the slice header once, so the loop visits the indices below the old length and reads
  each element from the backing array \<open>arr\<close> as it is at that moment, while the body
  moves elements and shortens the slice, whose current length is \<open>len\<close>. At a match,
  \<^verbatim>\<open>s.timers[i+1:]\<close> panics unless \<open>i + 1 \<le> len\<close>; \<^verbatim>\<open>copy\<close> then moves the elements
  \<open>i + 1 ..< len\<close> one place down, the last place of the slice is set to \<^verbatim>\<open>nil\<close> and
  the slice loses it.
\<close>

function remove_loop :: "nat \<Rightarrow> nat \<Rightarrow> ptr list \<Rightarrow> nat \<Rightarrow> error + ptr list \<times> nat" where
  "remove_loop t i arr len =
     (if i < length arr then
        (if arr ! i = Some t then
           (if i + 1 \<le> len then
              (let copied = map (\<lambda>j. if i \<le> j \<and> j < len - 1 then arr ! (j + 1) else arr ! j)
                              [0..<length arr];
                   n = len
               in remove_loop t (i + 1) (copied[n - 1 := None]) (n - 1))
            else Inl slice_bounds)
         else remove_loop t (i + 1) arr len)
      else Inr (arr, len))"
  by pat_completeness auto
termination
  by (relation "measure (\<lambda>(t, i, arr, len). length arr - i)") auto

definition removeTimer :: "state \<Rightarrow> nat \<Rightarrow> error + state" where
  "removeTimer s t =
     (case remove_loop t 0 (state_timers s) (length (state_timers s)) of
        Inl e \<Rightarrow> Inl e
      | Inr (arr, len) \<Rightarrow> Inr (s\<lparr>state_timers := take len arr\<rparr>))"

definition removeTicker :: "state \<Rightarrow> nat \<Rightarrow> error + state" where
  "removeTicker s t =
     (case remove_loop t 0 (state_tickers s) (length (state_tickers s)) of
        Inl e \<Rightarrow> Inl e
      | Inr (arr, len) \<Rightarrow> Inr (s\<lparr>state_tickers := take len arr\<rparr>))"

subsection \<open>The clock\<close>

definition NewWithStep :: "Time \<Rightarrow> Duration \<Rightarrow> error + world" where
  "NewWithStep start step =
     (if step < 0 then Inl (Panic ''fakeclock: NewWithStep with negative step'')
      else Inr \<lparr>clk = \<lparr>clock_step = step,
                        clock_state = \<lparr>state_t = start, state_timers = [], state_tickers = []\<rparr>,
                        clock_watch = None\<rparr>,
                timer_mem = (\<lambda>_. \<lparr>timer_c = None, timer_time = \<lparr>time_ext = 0, time_nsec = 0\<rparr>,
                                    timer_fired = False\<rparr>),
                timer_top = 0,
                ticker_mem = (\<lambda>_. \<lparr>ticker_c = None, ticker_d = 0,
                                     ticker_next = \<lparr>time_ext = 0, time_nsec = 0\<rparr>\<rparr>),
                ticker_top = 0,
                watch_calls = []\<rparr>)"

definition New :: "Time \<Rightarrow> error + world" where
  "New t = NewWithStep t 0"

definition call_watch :: "nat option \<Rightarrow> Duration list \<Rightarrow> world \<Rightarrow> world" where
  "call_watch cb args w =
     (case cb of
        None \<Rightarrow> w
      | Some g \<Rightarrow> w\<lparr>watch_calls := watch_calls w @ map (Pair g) args\<rparr>)"

text \<open>
  \<^verbatim>\<open>Clock.do\<close> and \<^verbatim>\<open>Clock.newWatcher\<close> take a closure that works on the state and on
  the objects it captured; here it is a function on the world that also yields what the
  closure left in its captured variables. A panic inside the closure ends the call.
\<close>

definition Clock_do :: "(world \<Rightarrow> error + 'a \<times> world) \<Rightarrow> world \<Rightarrow> error + 'a \<times> world" where
  "Clock_do f w =
     (let t = now_of w; cb = clock_watch (clk w)
      in case f w of
           Inl e \<Rightarrow> Inl e
         | Inr (r, w1) \<Rightarrow>
             (if now_of w1 \<noteq> t then
                (case notifyTimers w1 of
                   Inl e \<Rightarrow> Inl e
                 | Inr w2 \<Rightarrow>
                     (case notifyTickers w2 of
                        Inl e \<Rightarrow> Inl e
                      | Inr (args, w3) \<Rightarrow> Inr (r, call_watch cb args w3)))
              else Inr (r, call_watch cb [] w1)))"

definition Clock_newWatcher ::
  "Duration \<Rightarrow> (world \<Rightarrow> error + 'a \<times> world) \<Rightarrow> world \<Rightarrow> error + 'a \<times> world" where
  "Clock_newWatcher d f w =
     (let cb = clock_watch (clk w)
      in case f w of
           Inl e \<Rightarrow> Inl e
         | Inr (r, w1) \<Rightarrow> Inr (r, call_watch cb [d] w1))"

definition Clock_Now :: "world \<Rightarrow> error + Time \<times> world" where
  "Clock_Now w =
     Clock_do (\<lambda>w1. let s = clock_state (clk w1)
                     in Inr (state_t s,
                            set_state (s\<lparr>state_t := Time_Add (state_t s) (clock_step (clk w1))\<rparr>) w1)) w"

definition Clock_Add :: "Duration \<Rightarrow> world \<Rightarrow> error + unit \<times> world" where
  "Clock_Add delta w =
     (if delta < 0 then Inl (Panic ''fakeclock: Clock.Add with negative delta'')
      else Clock_do (\<lambda>w1. let s = clock_state (clk w1)
                           in Inr ((), set_state (s\<lparr>state_t := Time_Add (state_t s) delta\<rparr>) w1)) w)"

definition Clock_Peek :: "world \<Rightarrow> error + Time \<times> world" where
  "Clock_Peek w = Clock_do (\<lambda>w1. Inr (state_t (clock_state (clk w1)), w1)) w"

text \<open>
  \<^verbatim>\<open>&timer{...}\<close> allocates: the new timer gets the next free address. Its \<^verbatim>\<open>time\<close>
  field starts as the zero \<^verbatim>\<open>time.Time\<close> and is overwritten by \<^verbatim>\<open>init\<close> on either branch.
\<close>

definition Clock_NewTimer :: "Duration \<Rightarrow> world \<Rightarrow> error + nat \<times> world" where
  "Clock_NewTimer d w =
     Clock_newWatcher d
       (\<lambda>w1. let s = clock_state (clk w1);
                  t = timer_top w1;
                  (tm, ok) = timer_init \<lparr>timer_c = None, timer_time = \<lparr>time_ext = 0, time_nsec = 0\<rparr>,
                                         timer_fired = False\<rparr>
                               (state_t s) d;
                  w2 = w1\<lparr>timer_mem := (timer_mem w1)(t := tm), timer_top := Suc t\<rparr>
              in Inr (t, if ok then set_state (s\<lparr>state_timers := state_timers s @ [Some t]\<rparr>) w2
                         else w2)) w"

definition Clock_NewTicker :: "Duration \<Rightarrow> world \<Rightarrow> error + nat \<times> world" where
  "Clock_NewTicker d w =
     (if d \<le> 0 then Inl (Panic ''fakeclock: NewTicker with non-positive duration'')
      else Clock_newWatcher d
             (\<lambda>w1. let s = clock_state (clk w1);
                        t = ticker_top w1;
                        tk = \<lparr>ticker_c = None, ticker_d = d, ticker_next = Time_Add (state_t s) d\<rparr>;
                        w2 = w1\<lparr>ticker_mem := (ticker_mem w1)(t := tk), ticker_top := Suc t\<rparr>
                    in Inr (t, set_state (s\<lparr>state_tickers := state_tickers s @ [Some t]\<rparr>) w2)) w)"

definition Clock_SetWatchFunc :: "nat option \<Rightarrow> world \<Rightarrow> world" where
  "Clock_SetWatchFunc f w = w\<lparr>clk := (clk w)\<lparr>clock_watch := f\<rparr>\<rparr>"

definition timer_Reset :: "nat \<Rightarrow> Duration \<Rightarrow> world \<Rightarrow> error + bool \<times> world" where
  "timer_Reset t d w =
     Clock_newWatcher d
       (\<lambda>w1. let s = clock_state (clk w1);
                  active = \<not> timer_fired (timer_mem w1 t);
                  (tm, ok) = timer_init (timer_mem w1 t) (state_t s) d;
                  w2 = w1\<lparr>timer_mem := (timer_mem w1)(t := tm)\<rparr>
              in if ok then Inr (active, set_state (addTimer s t) w2)
                 else (case removeTimer s t of
                         Inl e \<Rightarrow> Inl e
                       | Inr s' \<Rightarrow> Inr (active, set_state s' w2))) w"

definition timer_Stop :: "nat \<Rightarrow> world \<Rightarrow> error + bool \<times> world" where
  "timer_Stop t w =
     Clock_do
       (\<lambda>w1. let s = clock_state (clk w1);
                  active = \<not> timer_fired (timer_mem w1 t);
                  w2 = w1\<lparr>timer_mem := (timer_mem w1)(t := (timer_mem w1 t)\<lparr>timer_fired := True\<rparr>)\<rparr>
              in (case removeTimer s t of
                    Inl e \<Rightarrow> Inl e
                  | Inr s' \<Rightarrow> Inr (active, set_state s' w2))) w"

definition ticker_Stop :: "nat \<Rightarrow> world \<Rightarrow> error + unit \<times> world" where
  "ticker_Stop t w =
     Clock_do
       (\<lambda>w1. (case removeTicker (clock_state (clk w1)) t of
                 Inl e \<Rightarrow> Inl e
               | Inr s' \<Rightarrow> Inr ((), set_state s' w1))) w"

subsection \<open>Runs of operations\<close>

text \<open>
  What a caller can do with a clock. \<open>OpReset\<close>, \<open>OpStop\<close> and \<open>OpTickerStop\<close> name the
  timer or ticker by its address; a caller holds an address only because \<^verbatim>\<open>NewTimer\<close> or
  \<^verbatim>\<open>NewTicker\<close> returned it, so an address that was never allocated ends the run with
  \<open>InvalidHandle\<close>. \<open>OpTimerRecv\<close> and \<open>OpTickerRecv\<close> are the caller taking whatever is
  in the channel.
\<close>

datatype op =
    OpNow
  | OpPeek
  | OpAdd Duration
  | OpNewTimer Duration
  | OpNewTicker Duration
  | OpSetWatchFunc "nat option"
  | OpReset nat Duration
  | OpStop nat
  | OpTickerStop nat
  | OpTimerRecv nat
  | OpTickerRecv nat

definition result_world :: "error + 'a \<times> world \<Rightarrow> error + world" where
  "result_world r = (case r of Inl e \<Rightarrow> Inl e | Inr (x, w) \<Rightarrow> Inr w)"

fun exec :: "op \<Rightarrow> world \<Rightarrow> error + world" where
  "exec OpNow w = result_world (Clock_Now w)"
| "exec OpPeek w = result_world (Clock_Peek w)"
| "exec (OpAdd delta) w = result_world (Clock_Add delta w)"
| "exec (OpNewTimer d) w = result_world (Clock_NewTimer d w)"
| "exec (OpNewTicker d) w = result_world (Clock_NewTicker d w)"
| "exec (OpSetWatchFunc f) w = Inr (Clock_SetWatchFunc f w)"
| "exec (OpReset t d) w =
     (if t < timer_top w then result_world (timer_Reset t d w) else Inl InvalidHandle)"
| "exec (OpStop t) w =
     (if t < timer_top w then result_world (timer_Stop t w) else Inl InvalidHandle)"
| "exec (OpTickerStop t) w =
     (if t < ticker_top w then result_world (ticker_Stop t w) else Inl InvalidHandle)"
| "exec (OpTimerRecv t) w =
     (if t < timer_top w
      then Inr (w\<lparr>timer_mem := (timer_mem w)
                  (t := (timer_mem w t)\<lparr>timer_c := snd (chan_recv (timer_c (timer_mem w t)))\<rparr>)\<rparr>)
      else Inl InvalidHandle)"
| "exec (OpTickerRecv t) w =
     (if t < ticker_top w
      then Inr (w\<lparr>ticker_mem := (ticker_mem w)
                  (t := (ticker_mem w t)\<lparr>ticker_c := snd (chan_recv (ticker_c (ticker_mem w t)))\<rparr>)\<rparr>)
      else Inl InvalidHandle)"

fun run :: "op list \<Rightarrow> world \<Rightarrow> error + world" where
  "run [] w = Inr w"
| "run (x # xs) w = (case exec x w of Inl e \<Rightarrow> Inl e | Inr w' \<Rightarrow> run xs w')"

text \<open>
  A clock made by \<^verbatim>\<open>NewWithStep\<close> and then used. The start is a \<^verbatim>\<open>time.Time\<close>: a record
  that is not one (nanoseconds outside a second, seconds outside 64 bits) ends the run
  with \<open>InvalidTime\<close>.
\<close>

definition run_from :: "Time \<Rightarrow> Duration \<Rightarrow> op list \<Rightarrow> error + world" where
  "run_from start step ops =
     (if \<not> valid_time start then Inl InvalidTime
      else case NewWithStep start step of Inl e \<Rightarrow> Inl e | Inr w \<Rightarrow> run ops w)"

text \<open>The operations that move the time: \<^verbatim>\<open>Add\<close> with a legal argument, and \<^verbatim>\<open>Now\<close>.\<close>

fun is_advance :: "op \<Rightarrow> bool" where
  "is_advance (OpAdd delta) = (0 \<le> delta)"
| "is_advance OpNow = True"
| "is_advance _ = False"

text \<open>The nanoseconds by which a list of operations asks the time to move, given the step.\<close>

fun advance_total :: "Duration \<Rightarrow> op list \<Rightarrow> int" where
  "advance_total step [] = 0"
| "advance_total step (OpAdd delta # xs) = delta + advance_total step xs"
| "advance_total step (OpNow # xs) = step + advance_total step xs"
| "advance_total step (x # xs) = advance_total step xs"

subsection \<open>Well-formed worlds\<close>

text \<open>
  What every world reached by a run satisfies (\<open>run_from_wellformed\<close> below): the step
  is not negative; the current time is a \<^verbatim>\<open>time.Time\<close>; no slice holds \<^verbatim>\<open>nil\<close> or the
  same pointer twice; a pending timer is allocated and its instant is a \<^verbatim>\<open>time.Time\<close>; an
  allocated timer is pending exactly when it has not fired; a pending ticker is
  allocated, has a positive period and its next instant is a \<^verbatim>\<open>time.Time\<close>.
\<close>

definition wellformed :: "world \<Rightarrow> bool" where
  "wellformed w \<longleftrightarrow>
     0 \<le> clock_step (clk w) \<and>
     valid_time (now_of w) \<and>
     distinct (timers_of w) \<and>
     distinct (tickers_of w) \<and>
     (\<forall>u \<in> set (timers_of w).
        case u of None \<Rightarrow> False
        | Some p \<Rightarrow> p < timer_top w \<and> valid_time (timer_time (timer_mem w p))) \<and>
     (\<forall>p \<in> set [0..<timer_top w].
        (Some p \<in> set (timers_of w)) = (\<not> timer_fired (timer_mem w p))) \<and>
     (\<forall>u \<in> set (tickers_of w).
        case u of None \<Rightarrow> False
        | Some k \<Rightarrow> k < ticker_top w \<and> 0 < ticker_d (ticker_mem w k) \<and>
                   valid_time (ticker_next (ticker_mem w k)))"

text \<open>
  The invariant on the pending collections: every pending timer has not fired and is
  due strictly later than the current time, and every pending ticker is due strictly
  later than the current time.
\<close>

definition pending_inv :: "world \<Rightarrow> bool" where
  "pending_inv w \<longleftrightarrow>
     (\<forall>u \<in> set (timers_of w).
        case u of None \<Rightarrow> False
        | Some p \<Rightarrow> \<not> timer_fired (timer_mem w p) \<and>
                   Time_Before (now_of w) (timer_time (timer_mem w p))) \<and>
     (\<forall>u \<in> set (tickers_of w).
        case u of None \<Rightarrow> False
        | Some k \<Rightarrow> Time_Before (now_of w) (ticker_next (ticker_mem w k)))"

subsection \<open>Closed forms\<close>

text \<open>
  What \<^verbatim>\<open>ticker.update\<close> leaves of a ticker when it returns (the ticker itself when it
  does not).
\<close>

definition ticker_after :: "ticker \<Rightarrow> Time \<Rightarrow> ticker" where
  "ticker_after tk now = (case ticker_update tk now of None \<Rightarrow> tk | Some (tk', d) \<Rightarrow> tk')"

definition due_timer :: "world \<Rightarrow> Time \<Rightarrow> nat \<Rightarrow> bool" where
  "due_timer w now p \<longleftrightarrow>
     Some p \<in> set (timers_of w) \<and> \<not> Time_Before now (timer_time (timer_mem w p))"

definition due_ticker :: "world \<Rightarrow> Time \<Rightarrow> nat \<Rightarrow> bool" where
  "due_ticker w now k \<longleftrightarrow>
     Some k \<in> set (tickers_of w) \<and> \<not> Time_Before now (ticker_next (ticker_mem w k))"

text \<open>Every pending ticker's \<^verbatim>\<open>update\<close> at \<open>now\<close> returns.\<close>

definition tickers_return :: "world \<Rightarrow> Time \<Rightarrow> bool" where
  "tickers_return w now \<longleftrightarrow>
     (\<forall>u \<in> set (tickers_of w).
        case u of None \<Rightarrow> True | Some k \<Rightarrow> ticker_update (ticker_mem w k) now \<noteq> None)"

text \<open>
  What \<^verbatim>\<open>Add(delta)\<close> leaves of a well-formed world when it returns (\<open>do_shift\<close> below):
  nothing changes when \<^verbatim>\<open>Time.Add\<close> gives the time back unchanged; otherwise the pending
  timers that are due fire and leave the pending slice, the pending tickers that are due
  send and move on, and the watch callback, when set, is called with the period of each
  ticker that sent, in the order of the slice.
\<close>

definition advanced :: "Duration \<Rightarrow> world \<Rightarrow> world" where
  "advanced delta w =
     (let now = Time_Add (now_of w) delta;
          s = clock_state (clk w)
      in if now = now_of w then w
         else
           w\<lparr>clk := (clk w)\<lparr>clock_state :=
                s\<lparr>state_t := now,
                  state_timers := filter (\<lambda>u. case u of None \<Rightarrow> True | Some p \<Rightarrow> \<not> due_timer w now p)
                                    (state_timers s)\<rparr>\<rparr>,
            timer_mem := (\<lambda>p. if due_timer w now p then timer_fire (timer_mem w p) now
                               else timer_mem w p),
            ticker_mem := (\<lambda>k. if due_ticker w now k then ticker_after (ticker_mem w k) now
                                else ticker_mem w k),
            watch_calls := watch_calls w @
               (case clock_watch (clk w) of
                  None \<Rightarrow> []
                | Some g \<Rightarrow> map (Pair g)
                    (concat (map (\<lambda>u. case u of None \<Rightarrow> []
                                        | Some k \<Rightarrow> if due_ticker w now k
                                                     then [ticker_d (ticker_mem w k)] else [])
                               (state_tickers s))))\<rparr>)"

text \<open>
  For a timer created with duration \<open>d\<close> and a sequence of advances, the total advance at
  the end of the first call with which the total reaches \<open>d\<close>.
\<close>

fun crossing :: "Duration \<Rightarrow> Duration list \<Rightarrow> Duration" where
  "crossing d [] = 0"
| "crossing d (x # xs) = (if d \<le> x then x else x + crossing (d - x) xs)"

declare remove_loop.simps [simp del]

section \<open>Properties\<close>

subsection \<open>Adding to a time\<close>

text \<open>
  For a duration that is not negative \<^verbatim>\<open>Time.Add\<close> never lowers the seconds, is exact
  while the sum is before the last second, and otherwise stops in the last second.
\<close>

lemma wrap64_range: "minInt64 \<le> wrap64 x \<and> wrap64 x \<le> maxInt64"
proof -
  have "0 \<le> (x + 9223372036854775808) mod 18446744073709551616"
    "(x + 9223372036854775808) mod 18446744073709551616 < 18446744073709551616"
    by simp_all
  then show ?thesis unfolding wrap64_def minInt64_def maxInt64_def by linarith
qed

lemma wrap64_id: "minInt64 \<le> x \<Longrightarrow> x \<le> maxInt64 \<Longrightarrow> wrap64 x = x"
  unfolding wrap64_def minInt64_def maxInt64_def
  by (simp add: mod_pos_pos_trivial)

lemma go_quot_nonneg: "0 \<le> d \<Longrightarrow> go_quot d 1000000000 = d div 1000000000"
  by (cases "d = 0") (simp_all add: go_quot_def)

lemma go_rem_nonneg: "0 \<le> d \<Longrightarrow> go_rem d 1000000000 = d mod 1000000000"
  by (simp add: go_rem_def go_quot_nonneg minus_mult_div_eq_mod)

lemma Time_addSec_nsec: "time_nsec (Time_addSec t q) = time_nsec t"
  by (simp add: Time_addSec_def Let_def)

lemma Time_addSec_ext:
  "time_ext (Time_addSec t q) =
     (if (wrap64 (time_ext t + q) > time_ext t) = (q > 0) then wrap64 (time_ext t + q)
      else if q > 0 then maxInt64 else - maxInt64)"
  by (simp add: Time_addSec_def Let_def)

lemma wrap64_over:
  assumes "maxInt64 < x" "x \<le> maxInt64 + maxInt64"
  shows "wrap64 x = x - 18446744073709551616"
proof -
  have "(x + 9223372036854775808) mod 18446744073709551616 =
        x + 9223372036854775808 - 18446744073709551616"
    using assms unfolding maxInt64_def
    by (intro int_mod_pos_eq [where q = 1]) simp_all
  then show ?thesis by (simp add: wrap64_def)
qed

lemma Time_addSec_nonneg:
  assumes "minInt64 \<le> time_ext t" "time_ext t \<le> maxInt64" "0 \<le> q"
  shows "time_ext t \<le> time_ext (Time_addSec t q)"
    and "time_ext (Time_addSec t q) \<le> maxInt64"
    and "time_ext t + q \<le> maxInt64 \<Longrightarrow> time_ext (Time_addSec t q) = time_ext t + q"
    and "0 < q \<Longrightarrow> time_ext t < maxInt64 \<Longrightarrow> time_ext t < time_ext (Time_addSec t q)"
    and "q \<le> maxInt64 \<Longrightarrow> maxInt64 < time_ext t + q \<Longrightarrow> time_ext (Time_addSec t q) = maxInt64"
proof -
  define s where "s = wrap64 (time_ext t + q)"
  have r: "minInt64 \<le> s" "s \<le> maxInt64"
    using wrap64_range [of "time_ext t + q"] by (simp_all add: s_def)
  have e: "time_ext (Time_addSec t q) =
     (if (s > time_ext t) = (q > 0) then s else if q > 0 then maxInt64 else - maxInt64)"
    by (simp add: Time_addSec_ext s_def)
  have z: "q = 0 \<Longrightarrow> s = time_ext t"
    using assms by (simp add: s_def wrap64_id)
  show "time_ext t \<le> time_ext (Time_addSec t q)"
  proof (cases "q = 0")
    case True
    then show ?thesis using z e by simp
  next
    case False
    then have "0 < q" using assms by simp
    then show ?thesis using e assms(2) by (cases "s > time_ext t") simp_all
  qed
  show "time_ext (Time_addSec t q) \<le> maxInt64"
  proof (cases "q = 0")
    case True
    then show ?thesis using z e assms by simp
  next
    case False
    then have "0 < q" using assms by simp
    then show ?thesis using e r by (cases "s > time_ext t") simp_all
  qed
  show "time_ext (Time_addSec t q) = time_ext t + q" if "time_ext t + q \<le> maxInt64"
  proof -
    have "s = time_ext t + q"
      unfolding s_def using that assms by (intro wrap64_id) simp_all
    then show ?thesis using e assms by (cases "q = 0") simp_all
  qed
  show "time_ext t < time_ext (Time_addSec t q)" if "0 < q" "time_ext t < maxInt64"
    using that e by (cases "s > time_ext t") simp_all
  show "time_ext (Time_addSec t q) = maxInt64" if "q \<le> maxInt64" "maxInt64 < time_ext t + q"
  proof -
    have "s = time_ext t + q - 18446744073709551616"
      unfolding s_def using that assms by (intro wrap64_over) simp_all
    moreover have "q < 18446744073709551616" using that(1) by (simp add: maxInt64_def)
    ultimately have "\<not> s > time_ext t" by simp
    moreover have "0 < q" using that assms by simp
    ultimately show ?thesis using e by simp
  qed
qed

lemma Time_Add_unfold:
  "Time_Add t d =
     (if time_nsec t + go_rem d 1000000000 \<ge> 1000000000
      then Time_addSec (t\<lparr>time_nsec := time_nsec t + go_rem d 1000000000 - 1000000000\<rparr>)
             (go_quot d 1000000000 + 1)
      else if time_nsec t + go_rem d 1000000000 < 0
      then Time_addSec (t\<lparr>time_nsec := time_nsec t + go_rem d 1000000000 + 1000000000\<rparr>)
             (go_quot d 1000000000 - 1)
      else Time_addSec (t\<lparr>time_nsec := time_nsec t + go_rem d 1000000000\<rparr>)
             (go_quot d 1000000000))"
  by (simp add: Time_Add_def Let_def)

lemma Time_Add_nonneg:
  assumes "valid_time t" "0 \<le> d"
  shows "Time_Add t d =
           Time_addSec (t\<lparr>time_nsec := (time_nsec t + d) mod 1000000000\<rparr>)
             ((time_nsec t + d) div 1000000000)"
proof -
  define c :: int where "c = 1000000000"
  define n where "n = time_nsec t"
  define q where "q = d div c"
  define r where "r = d mod c"
  have c: "0 < c" by (simp add: c_def)
  have n: "0 \<le> n" "n < c" using assms(1) by (simp_all add: valid_time_def n_def c_def)
  have r: "0 \<le> r" "r < c" using c by (simp_all add: r_def)
  have d: "d = c * q + r" by (simp add: q_def r_def)
  have unf: "Time_Add t d =
     (if n + r \<ge> c then Time_addSec (t\<lparr>time_nsec := n + r - c\<rparr>) (q + 1)
      else if n + r < 0 then Time_addSec (t\<lparr>time_nsec := n + r + c\<rparr>) (q - 1)
      else Time_addSec (t\<lparr>time_nsec := n + r\<rparr>) q)"
    unfolding Time_Add_unfold go_quot_nonneg [OF assms(2)] go_rem_nonneg [OF assms(2)]
    by (simp add: c_def n_def q_def r_def)
  show ?thesis
  proof (cases "n + r \<ge> c")
    case True
    have eq: "n + d = c * (q + 1) + (n + r - c)" using d by (simp add: algebra_simps)
    have b: "0 \<le> n + r - c" "n + r - c < c" using True n r by simp_all
    have "(n + d) div c = q + 1" using eq b by (rule int_div_pos_eq)
    moreover have "(n + d) mod c = n + r - c" using eq b by (rule int_mod_pos_eq)
    ultimately show ?thesis using True unf by (simp add: n_def c_def)
  next
    case False
    have eq: "n + d = c * q + (n + r)" using d by (simp add: algebra_simps)
    have b: "0 \<le> n + r" "n + r < c" using False n r by simp_all
    have "(n + d) div c = q" using eq b by (rule int_div_pos_eq)
    moreover have "(n + d) mod c = n + r" using eq b by (rule int_mod_pos_eq)
    ultimately show ?thesis using False b unf by (simp add: n_def c_def)
  qed
qed

lemma Time_Add_parts:
  assumes "valid_time t" "0 \<le> d"
  shows "time_nsec (Time_Add t d) = (time_nsec t + d) mod 1000000000"
    and "time_ext (Time_Add t d) =
           time_ext (Time_addSec t ((time_nsec t + d) div 1000000000))"
    and "0 \<le> (time_nsec t + d) div 1000000000"
proof -
  show "time_nsec (Time_Add t d) = (time_nsec t + d) mod 1000000000"
    by (simp add: Time_Add_nonneg [OF assms] Time_addSec_nsec)
  show "time_ext (Time_Add t d) = time_ext (Time_addSec t ((time_nsec t + d) div 1000000000))"
    by (simp add: Time_Add_nonneg [OF assms] Time_addSec_ext)
  have "0 \<le> time_nsec t + d" using assms by (simp add: valid_time_def)
  then show "0 \<le> (time_nsec t + d) div 1000000000"
    by (simp add: pos_imp_zdiv_nonneg_iff)
qed

lemma valid_time_Add:
  assumes "valid_time t" "0 \<le> d"
  shows "valid_time (Time_Add t d)"
proof -
  have e: "minInt64 \<le> time_ext t" "time_ext t \<le> maxInt64"
    using assms(1) by (simp_all add: valid_time_def)
  note p = Time_Add_parts [OF assms]
  note a = Time_addSec_nonneg [OF e p(3)]
  have "minInt64 \<le> time_ext (Time_Add t d)" using a(1) e(1) p(2) by simp
  moreover have "time_ext (Time_Add t d) \<le> maxInt64" using a(2) p(2) by simp
  moreover have "0 \<le> time_nsec (Time_Add t d)" "time_nsec (Time_Add t d) < 1000000000"
    unfolding p(1) by simp_all
  ultimately show ?thesis by (simp add: valid_time_def)
qed

lemma Time_Add_ext_mono:
  assumes "valid_time t" "0 \<le> d"
  shows "time_ext t \<le> time_ext (Time_Add t d)"
proof -
  have e: "minInt64 \<le> time_ext t" "time_ext t \<le> maxInt64"
    using assms(1) by (simp_all add: valid_time_def)
  note p = Time_Add_parts [OF assms]
  show ?thesis using Time_addSec_nonneg(1) [OF e p(3)] p(2) by simp
qed

lemma early_Time_Add:
  "valid_time t \<Longrightarrow> 0 \<le> d \<Longrightarrow> early (Time_Add t d) \<Longrightarrow> early t"
  using Time_Add_ext_mono [of t d] by (simp add: early_def)

lemma instant_split:
  assumes "valid_time t" "0 \<le> d"
  shows "instant t + d =
     (time_ext t + (time_nsec t + d) div 1000000000) * 1000000000 +
       (time_nsec t + d) mod 1000000000"
proof -
  have "time_nsec t + d =
      (time_nsec t + d) div 1000000000 * 1000000000 + (time_nsec t + d) mod 1000000000"
    by simp
  then show ?thesis unfolding instant_def by (simp add: algebra_simps)
qed

lemma Time_Add_exact_ext:
  assumes "valid_time t" "0 \<le> d"
    and "time_ext t + (time_nsec t + d) div 1000000000 \<le> maxInt64"
  shows "instant (Time_Add t d) = instant t + d"
proof -
  have e: "minInt64 \<le> time_ext t" "time_ext t \<le> maxInt64"
    using assms(1) by (simp_all add: valid_time_def)
  note p = Time_Add_parts [OF assms(1,2)]
  have "time_ext (Time_Add t d) = time_ext t + (time_nsec t + d) div 1000000000"
    using Time_addSec_nonneg(3) [OF e p(3) assms(3)] p(2) by simp
  then show ?thesis
    unfolding instant_split [OF assms(1,2)] by (simp add: instant_def p(1))
qed

lemma Time_Add_exact:
  assumes "valid_time t" "0 \<le> d" "instant t + d < last_second"
  shows "instant (Time_Add t d) = instant t + d"
proof -
  define q where "q = (time_nsec t + d) div 1000000000"
  define m where "m = (time_nsec t + d) mod 1000000000"
  have m: "0 \<le> m" by (simp add: m_def)
  have "(time_ext t + q) * 1000000000 + m < maxInt64 * 1000000000"
    using assms(3) unfolding instant_split [OF assms(1,2)] last_second_def q_def m_def .
  then have "(time_ext t + q) * 1000000000 < maxInt64 * 1000000000" using m by linarith
  then have "time_ext t + q < maxInt64" by simp
  then have "time_ext t + (time_nsec t + d) div 1000000000 \<le> maxInt64"
    unfolding q_def by simp
  then show ?thesis by (rule Time_Add_exact_ext [OF assms(1,2)])
qed

lemma early_instant: "valid_time t \<Longrightarrow> early t \<longleftrightarrow> instant t < last_second"
proof -
  assume v: "valid_time t"
  then have n: "0 \<le> time_nsec t" "time_nsec t < 1000000000" by (simp_all add: valid_time_def)
  show ?thesis
  proof
    assume "early t"
    then have "time_ext t + 1 \<le> maxInt64" by (simp add: early_def)
    then have "(time_ext t + 1) * 1000000000 \<le> maxInt64 * 1000000000"
      by (intro mult_right_mono) simp_all
    then show "instant t < last_second"
      using n unfolding instant_def last_second_def by (simp add: algebra_simps)
  next
    assume "instant t < last_second"
    then have "time_ext t * 1000000000 < maxInt64 * 1000000000"
      using n unfolding instant_def last_second_def by linarith
    then show "early t" by (simp add: early_def)
  qed
qed

lemma Time_Before_instant:
  assumes "valid_time t" "valid_time u"
  shows "Time_Before t u \<longleftrightarrow> instant t < instant u"
proof -
  have n: "0 \<le> time_nsec t" "time_nsec t < 1000000000"
    "0 \<le> time_nsec u" "time_nsec u < 1000000000"
    using assms by (simp_all add: valid_time_def)
  show ?thesis
  proof (cases "time_ext t < time_ext u")
    case True
    then have "time_ext t + 1 \<le> time_ext u" by simp
    then have "(time_ext t + 1) * 1000000000 \<le> time_ext u * 1000000000"
      by (intro mult_right_mono) simp_all
    then have "instant t < instant u" using n unfolding instant_def by (simp add: algebra_simps)
    then show ?thesis using True by (simp add: Time_Before_def)
  next
    case False
    show ?thesis
    proof (cases "time_ext t = time_ext u")
      case True
      then show ?thesis by (simp add: Time_Before_def instant_def)
    next
      case F2: False
      then have "time_ext u + 1 \<le> time_ext t" using False by simp
      then have "(time_ext u + 1) * 1000000000 \<le> time_ext t * 1000000000"
        by (intro mult_right_mono) simp_all
      then have "\<not> instant t < instant u" using n unfolding instant_def by (simp add: algebra_simps)
      then show ?thesis using False F2 by (simp add: Time_Before_def)
    qed
  qed
qed

lemma instant_inj:
  assumes "valid_time t" "valid_time u" "instant t = instant u"
  shows "t = u"
proof -
  have "\<not> Time_Before t u" "\<not> Time_Before u t"
    using assms by (simp_all add: Time_Before_instant)
  then have "time_ext t = time_ext u \<and> time_nsec t = time_nsec u"
    unfolding Time_Before_def by linarith
  then show ?thesis by simp
qed

lemma Time_Add_later:
  assumes "valid_time t" "0 < d" "early t"
  shows "Time_Before t (Time_Add t d)"
proof -
  have d0: "0 \<le> d" using assms(2) by simp
  have e: "minInt64 \<le> time_ext t" "time_ext t \<le> maxInt64"
    and n: "0 \<le> time_nsec t" "time_nsec t < 1000000000"
    using assms(1) by (simp_all add: valid_time_def)
  note p = Time_Add_parts [OF assms(1) d0]
  define q where "q = (time_nsec t + d) div 1000000000"
  show ?thesis
  proof (cases "q = 0")
    case True
    then have "time_nsec t + d < 1000000000"
      using n assms(2) unfolding q_def by (simp add: div_pos_pos_trivial zdiv_eq_0_iff)
    then have "time_nsec (Time_Add t d) = time_nsec t + d"
      using n assms(2) unfolding p(1) by (simp add: mod_pos_pos_trivial)
    moreover have "time_ext (Time_Add t d) = time_ext t"
      using Time_addSec_nonneg(3) [OF e, of 0] True p(2) e by (simp add: q_def)
    ultimately show ?thesis using assms(2) by (simp add: Time_Before_def)
  next
    case False
    then have "0 < q" using p(3) by (simp add: q_def)
    then have "time_ext t < time_ext (Time_Add t d)"
      using Time_addSec_nonneg(4) [OF e p(3)] assms(3) p(2) by (simp add: q_def early_def)
    then show ?thesis by (simp add: Time_Before_def)
  qed
qed

lemma Time_Add_zero: "valid_time t \<Longrightarrow> Time_Add t 0 = t"
proof -
  assume v: "valid_time t"
  then have "time_nsec t mod 1000000000 = time_nsec t" "time_nsec t div 1000000000 = 0"
    by (simp_all add: valid_time_def)
  moreover have "time_ext (Time_addSec t 0) = time_ext t"
    using Time_addSec_nonneg(3) [of t 0] v by (simp add: valid_time_def)
  ultimately show ?thesis
    using Time_Add_nonneg [OF v, of 0] by (simp add: Time_addSec_def Let_def)
qed

lemma Time_Add_not_earlier:
  assumes "valid_time t" "0 \<le> d" "early t"
  shows "\<not> Time_Before (Time_Add t d) t"
proof (cases "d = 0")
  case True
  then show ?thesis using assms(1) by (simp add: Time_Add_zero Time_Before_def)
next
  case False
  then have "Time_Before t (Time_Add t d)" using assms by (intro Time_Add_later) simp_all
  then show ?thesis unfolding Time_Before_def by linarith
qed

lemma Time_Add_sat:
  assumes "valid_time t" "0 \<le> d" "d \<le> maxInt64"
  shows "instant (Time_Add t d) = instant t + d \<or>
         time_ext (Time_Add t d) = maxInt64 \<and> last_second \<le> instant t + d"
proof -
  have e: "minInt64 \<le> time_ext t" "time_ext t \<le> maxInt64"
    and n: "0 \<le> time_nsec t" "time_nsec t < 1000000000"
    using assms(1) by (simp_all add: valid_time_def)
  note p = Time_Add_parts [OF assms(1,2)]
  define q where "q = (time_nsec t + d) div 1000000000"
  define m where "m = (time_nsec t + d) mod 1000000000"
  have m: "0 \<le> m" by (simp add: m_def)
  show ?thesis
  proof (cases "time_ext t + q \<le> maxInt64")
    case True
    then show ?thesis using assms(1,2) by (simp add: Time_Add_exact_ext q_def)
  next
    case False
    have "time_nsec t + d = q * 1000000000 + m" by (simp add: q_def m_def)
    then have "q * 1000000000 \<le> time_nsec t + d" using m by linarith
    then have "q * 1000000000 \<le> maxInt64 * 1000000000"
      using n assms(3) unfolding maxInt64_def by linarith
    then have ql: "q \<le> maxInt64" by simp
    have "time_ext (Time_Add t d) = maxInt64"
      using Time_addSec_nonneg(5) [OF e p(3)] ql False p(2) by (simp add: q_def)
    moreover have "maxInt64 + 1 \<le> time_ext t + q" using False by simp
    then have "(maxInt64 + 1) * 1000000000 \<le> (time_ext t + q) * 1000000000"
      by (intro mult_right_mono) simp_all
    then have "last_second \<le> instant t + d"
      unfolding instant_split [OF assms(1,2)] last_second_def using m
      by (simp add: q_def m_def algebra_simps)
    ultimately show ?thesis by simp
  qed
qed

subsection \<open>The ticker's loop\<close>

text \<open>
  When the loop ends it has added the period some number of times, the result is later
  than \<open>now\<close>, and no earlier value was.
\<close>

lemma ticker_forward_Some:
  assumes "ticker_forward now tk = Some tk'"
  shows "\<exists>n. tk' = tk\<lparr>ticker_next := ((\<lambda>t. Time_Add t (ticker_d tk)) ^^ n) (ticker_next tk)\<rparr> \<and>
             Time_Before now (ticker_next tk') \<and>
             (\<forall>j<n. \<not> Time_Before now (((\<lambda>t. Time_Add t (ticker_d tk)) ^^ j) (ticker_next tk)))"
proof (rule ticker_forward.raw_induct
    [where P = "\<lambda>now tk y. \<exists>n. y = tk\<lparr>ticker_next := ((\<lambda>t. Time_Add t (ticker_d tk)) ^^ n) (ticker_next tk)\<rparr> \<and>
             Time_Before now (ticker_next y) \<and>
             (\<forall>j<n. \<not> Time_Before now (((\<lambda>t. Time_Add t (ticker_d tk)) ^^ j) (ticker_next tk)))",
      OF _ assms])
  fix f :: "Time \<Rightarrow> ticker \<Rightarrow> ticker option" and now tk y
  assume ih: "\<And>now tk y. f now tk = Some y \<Longrightarrow>
      \<exists>n. y = tk\<lparr>ticker_next := ((\<lambda>t. Time_Add t (ticker_d tk)) ^^ n) (ticker_next tk)\<rparr> \<and>
             Time_Before now (ticker_next y) \<and>
             (\<forall>j<n. \<not> Time_Before now (((\<lambda>t. Time_Add t (ticker_d tk)) ^^ j) (ticker_next tk)))"
    and eq: "(if \<not> Time_Before now (ticker_next tk)
              then f now (tk\<lparr>ticker_next := Time_Add (ticker_next tk) (ticker_d tk)\<rparr>)
              else Some tk) = Some y"
  let ?F = "\<lambda>t. Time_Add t (ticker_d tk)"
  show "\<exists>n. y = tk\<lparr>ticker_next := (?F ^^ n) (ticker_next tk)\<rparr> \<and>
             Time_Before now (ticker_next y) \<and>
             (\<forall>j<n. \<not> Time_Before now ((?F ^^ j) (ticker_next tk)))"
  proof (cases "Time_Before now (ticker_next tk)")
    case True
    then have "y = tk" using eq by simp
    then have "y = tk\<lparr>ticker_next := (?F ^^ 0) (ticker_next tk)\<rparr> \<and>
             Time_Before now (ticker_next y) \<and>
             (\<forall>j<0. \<not> Time_Before now ((?F ^^ j) (ticker_next tk)))"
      using True by simp
    then show ?thesis by blast
  next
    case False
    then have "f now (tk\<lparr>ticker_next := Time_Add (ticker_next tk) (ticker_d tk)\<rparr>) = Some y"
      using eq by simp
    from ih [OF this] obtain n where
      y: "y = tk\<lparr>ticker_next := (?F ^^ n) (?F (ticker_next tk))\<rparr>"
      and b: "Time_Before now (ticker_next y)"
      and l: "\<forall>j<n. \<not> Time_Before now ((?F ^^ j) (?F (ticker_next tk)))"
      by auto
    have sw: "(?F ^^ j) (?F (ticker_next tk)) = (?F ^^ Suc j) (ticker_next tk)" for j
      using funpow_swap1 [of ?F j "ticker_next tk"] by simp
    have "\<forall>j<Suc n. \<not> Time_Before now ((?F ^^ j) (ticker_next tk))"
    proof (intro allI impI)
      fix j assume j: "j < Suc n"
      show "\<not> Time_Before now ((?F ^^ j) (ticker_next tk))"
      proof (cases j)
        case 0
        then show ?thesis using False by simp
      next
        case (Suc i)
        then have "i < n" using j by simp
        then have "\<not> Time_Before now ((?F ^^ i) (?F (ticker_next tk)))" using l by simp
        then show ?thesis unfolding Suc sw .
      qed
    qed
    moreover have "y = tk\<lparr>ticker_next := (?F ^^ Suc n) (ticker_next tk)\<rparr>"
      using y unfolding sw .
    ultimately show ?thesis using b by blast
  qed
qed

lemma ticker_forward_fields:
  assumes "ticker_forward now tk = Some tk'"
  shows "ticker_c tk' = ticker_c tk" "ticker_d tk' = ticker_d tk"
    "Time_Before now (ticker_next tk')"
  using ticker_forward_Some [OF assms] by auto

text \<open>
  Before the last second every addition of a positive period moves \<open>next\<close> forward, so
  the loop ends.
\<close>

lemma ticker_forward_returns:
  assumes "valid_time now" "early now" "0 < ticker_d tk" "valid_time (ticker_next tk)"
  shows "\<exists>tk'. ticker_forward now tk = Some tk'"
  using assms(3,4)
proof (induction "nat (instant now + 1 - instant (ticker_next tk))" arbitrary: tk rule: less_induct)
  case less
  show ?case
  proof (cases "Time_Before now (ticker_next tk)")
    case True
    then show ?thesis by (subst ticker_forward.simps) simp
  next
    case False
    let ?tk = "tk\<lparr>ticker_next := Time_Add (ticker_next tk) (ticker_d tk)\<rparr>"
    have le: "instant (ticker_next tk) \<le> instant now"
      using False less.prems assms(1) by (simp add: Time_Before_instant)
    then have "instant (ticker_next tk) < last_second"
      using assms(1,2) by (simp add: early_instant)
    then have e: "early (ticker_next tk)" using less.prems by (simp add: early_instant)
    have v: "valid_time (ticker_next ?tk)" using less.prems by (simp add: valid_time_Add)
    have "Time_Before (ticker_next tk) (ticker_next ?tk)"
      using less.prems e by (simp add: Time_Add_later)
    then have "instant (ticker_next tk) < instant (ticker_next ?tk)"
      using less.prems(2) v by (simp only: Time_Before_instant)
    then have m: "nat (instant now + 1 - instant (ticker_next ?tk))
                < nat (instant now + 1 - instant (ticker_next tk))"
      using le by linarith
    have d: "0 < ticker_d ?tk" using less.prems by simp
    from less.hyps [OF m d v] obtain tk' where "ticker_forward now ?tk = Some tk'" ..
    moreover have "ticker_forward now tk = ticker_forward now ?tk"
      using False by (subst ticker_forward.simps) simp
    ultimately show ?thesis by simp
  qed
qed

lemma ticker_update_returns:
  assumes "valid_time now" "early now" "0 < ticker_d tk" "valid_time (ticker_next tk)"
  shows "ticker_update tk now \<noteq> None"
proof -
  obtain tk' where "ticker_forward now (tk\<lparr>ticker_c := chan_send (ticker_c tk) now\<rparr>) = Some tk'"
    using ticker_forward_returns [OF assms(1,2), of "tk\<lparr>ticker_c := chan_send (ticker_c tk) now\<rparr>"]
      assms(3,4) by auto
  then show ?thesis by (simp add: ticker_update_def)
qed

text \<open>
  A due ticker whose \<open>next\<close> the addition of the period leaves unchanged keeps the loop
  running forever. This is what happens in the last second that a \<^verbatim>\<open>time.Time\<close> can
  hold, and with a period of zero.
\<close>

lemma ticker_forward_stuck:
  assumes "ticker_forward now tk = Some tk'"
  shows "Time_Add (ticker_next tk) (ticker_d tk) \<noteq> ticker_next tk \<or> Time_Before now (ticker_next tk)"
proof (rule ticker_forward.raw_induct
    [where P = "\<lambda>now tk y. Time_Add (ticker_next tk) (ticker_d tk) \<noteq> ticker_next tk \<or>
                            Time_Before now (ticker_next tk)", OF _ assms])
  fix f :: "Time \<Rightarrow> ticker \<Rightarrow> ticker option" and now tk y
  assume ih: "\<And>now tk y. f now tk = Some y \<Longrightarrow>
      Time_Add (ticker_next tk) (ticker_d tk) \<noteq> ticker_next tk \<or> Time_Before now (ticker_next tk)"
    and eq: "(if \<not> Time_Before now (ticker_next tk)
              then f now (tk\<lparr>ticker_next := Time_Add (ticker_next tk) (ticker_d tk)\<rparr>)
              else Some tk) = Some y"
  show "Time_Add (ticker_next tk) (ticker_d tk) \<noteq> ticker_next tk \<or> Time_Before now (ticker_next tk)"
  proof (cases "Time_Before now (ticker_next tk)")
    case True
    then show ?thesis by simp
  next
    case False
    then have "f now (tk\<lparr>ticker_next := Time_Add (ticker_next tk) (ticker_d tk)\<rparr>) = Some y"
      using eq by simp
    from ih [OF this] False show ?thesis
      by (cases "Time_Add (ticker_next tk) (ticker_d tk) = ticker_next tk") auto
  qed
qed

lemma ticker_forward_diverges:
  "Time_Add (ticker_next tk) (ticker_d tk) = ticker_next tk \<Longrightarrow>
   \<not> Time_Before now (ticker_next tk) \<Longrightarrow> ticker_forward now tk = None"
  using ticker_forward_stuck [of now tk] by (cases "ticker_forward now tk") auto

lemma ticker_update_diverges:
  "Time_Add (ticker_next tk) (ticker_d tk) = ticker_next tk \<Longrightarrow>
   \<not> Time_Before now (ticker_next tk) \<Longrightarrow> ticker_update tk now = None"
  by (simp add: ticker_update_def ticker_forward_diverges)

text \<open>What \<^verbatim>\<open>ticker.update\<close> returns.\<close>

lemma ticker_update_not_due:
  "Time_Before now (ticker_next tk) \<Longrightarrow> ticker_update tk now = Some (tk, 0)"
  by (simp add: ticker_update_def)

lemma ticker_update_due:
  assumes "\<not> Time_Before now (ticker_next tk)" "ticker_update tk now \<noteq> None"
  shows "ticker_update tk now = Some (ticker_after tk now, ticker_d tk)"
proof -
  obtain tk' where f: "ticker_forward now (tk\<lparr>ticker_c := chan_send (ticker_c tk) now\<rparr>) = Some tk'"
    using assms by (auto simp: ticker_update_def split: option.splits)
  have "ticker_d tk' = ticker_d tk" using ticker_forward_fields(2) [OF f] by simp
  then show ?thesis using assms(1) f by (simp add: ticker_update_def ticker_after_def)
qed

lemma ticker_after_not_due:
  "Time_Before now (ticker_next tk) \<Longrightarrow> ticker_after tk now = tk"
  by (simp add: ticker_after_def ticker_update_def)

text \<open>
  What a due ticker is after its \<^verbatim>\<open>update\<close> has returned: one send of \<open>now\<close>, the same
  period, and a \<open>next\<close> that is the old one plus a positive number of periods, the
  first of these that is later than \<open>now\<close>.
\<close>

lemma ticker_after_due:
  assumes "\<not> Time_Before now (ticker_next tk)" "ticker_update tk now \<noteq> None"
  shows "ticker_c (ticker_after tk now) = chan_send (ticker_c tk) now"
    and "ticker_d (ticker_after tk now) = ticker_d tk"
    and "Time_Before now (ticker_next (ticker_after tk now))"
    and "\<exists>n>0. ticker_next (ticker_after tk now) =
                 ((\<lambda>t. Time_Add t (ticker_d tk)) ^^ n) (ticker_next tk) \<and>
               (\<forall>j<n. \<not> Time_Before now (((\<lambda>t. Time_Add t (ticker_d tk)) ^^ j) (ticker_next tk)))"
proof -
  let ?tk = "tk\<lparr>ticker_c := chan_send (ticker_c tk) now\<rparr>"
  obtain tk' where f: "ticker_forward now ?tk = Some tk'"
    using assms by (auto simp: ticker_update_def split: option.splits)
  have a: "ticker_after tk now = tk'" using assms(1) f by (simp add: ticker_after_def ticker_update_def)
  from ticker_forward_Some [OF f] obtain n where
    n: "tk' = ?tk\<lparr>ticker_next := ((\<lambda>t. Time_Add t (ticker_d tk)) ^^ n) (ticker_next tk)\<rparr>"
    and b: "Time_Before now (ticker_next tk')"
    and l: "\<forall>j<n. \<not> Time_Before now (((\<lambda>t. Time_Add t (ticker_d tk)) ^^ j) (ticker_next tk))"
    by auto
  show "ticker_c (ticker_after tk now) = chan_send (ticker_c tk) now"
    unfolding a by (subst n) simp
  show "ticker_d (ticker_after tk now) = ticker_d tk"
    unfolding a by (subst n) simp
  show "Time_Before now (ticker_next (ticker_after tk now))" unfolding a by (rule b)
  have "n \<noteq> 0"
  proof
    assume "n = 0"
    then have "ticker_next tk' = ticker_next tk" by (subst n) simp
    then show False using b assms(1) by simp
  qed
  moreover have "ticker_next (ticker_after tk now) =
      ((\<lambda>t. Time_Add t (ticker_d tk)) ^^ n) (ticker_next tk)"
    unfolding a by (subst n) simp
  ultimately show "\<exists>n>0. ticker_next (ticker_after tk now) =
                 ((\<lambda>t. Time_Add t (ticker_d tk)) ^^ n) (ticker_next tk) \<and>
               (\<forall>j<n. \<not> Time_Before now (((\<lambda>t. Time_Add t (ticker_d tk)) ^^ j) (ticker_next tk)))"
    using l by blast
qed

text \<open>
  While \<open>now\<close> plus one period is before the last second the additions are exact: the
  new \<open>next\<close> is the old one plus the least number of periods that passes \<open>now\<close>.
\<close>

lemma funpow_Add_exact:
  assumes "valid_time now" "valid_time t" "0 < d" "instant now + d < last_second"
    and "\<forall>j<n. \<not> Time_Before now (((\<lambda>t. Time_Add t d) ^^ j) t)"
  shows "j \<le> n \<Longrightarrow> valid_time (((\<lambda>t. Time_Add t d) ^^ j) t) \<and>
         instant (((\<lambda>t. Time_Add t d) ^^ j) t) = instant t + int j * d"
proof (induction j)
  case 0
  then show ?case using assms(2) by simp
next
  case (Suc j)
  let ?u = "((\<lambda>t. Time_Add t d) ^^ j) t"
  have ih: "valid_time ?u" "instant ?u = instant t + int j * d"
    using Suc by simp_all
  have "\<not> Time_Before now ?u" using assms(5) Suc.prems by simp
  then have "instant ?u \<le> instant now" using assms(1) ih(1) by (simp add: Time_Before_instant)
  then have "instant ?u + d < last_second" using assms(4) by simp
  then have "instant (Time_Add ?u d) = instant ?u + d"
    using ih(1) assms(3) by (intro Time_Add_exact) simp_all
  moreover have "valid_time (Time_Add ?u d)" using ih(1) assms(3) by (simp add: valid_time_Add)
  ultimately show ?case using ih(2) by (simp add: algebra_simps)
qed

lemma ticker_after_exact:
  assumes "valid_time now" "valid_time (ticker_next tk)" "0 < ticker_d tk"
    and "\<not> Time_Before now (ticker_next tk)"
    and "instant now + ticker_d tk < last_second"
  shows "ticker_update tk now \<noteq> None"
    and "valid_time (ticker_next (ticker_after tk now))"
    and "instant (ticker_next (ticker_after tk now)) =
           instant (ticker_next tk) +
           ((instant now - instant (ticker_next tk)) div ticker_d tk + 1) * ticker_d tk"
proof -
  have "instant now < last_second" using assms(3,5) by simp
  then have e: "early now" using assms(1) by (simp add: early_instant)
  show r: "ticker_update tk now \<noteq> None"
    using assms(1) e assms(3,2) by (rule ticker_update_returns)
  let ?F = "\<lambda>t. Time_Add t (ticker_d tk)"
  define a where "a = instant (ticker_next tk)"
  define b where "b = instant now"
  define d where "d = ticker_d tk"
  from ticker_after_due(4) [OF assms(4) r] obtain n where
    n: "0 < n" "ticker_next (ticker_after tk now) = (?F ^^ n) (ticker_next tk)"
    and l: "\<forall>j<n. \<not> Time_Before now ((?F ^^ j) (ticker_next tk))"
    by auto
  note ex = funpow_Add_exact [OF assms(1,2,3,5) l]
  have last: "valid_time ((?F ^^ n) (ticker_next tk))"
    "instant ((?F ^^ n) (ticker_next tk)) = a + int n * d"
    using ex [of n] by (simp_all add: a_def d_def)
  show "valid_time (ticker_next (ticker_after tk now))" using last(1) n(2) by simp
  have prev: "valid_time ((?F ^^ (n - 1)) (ticker_next tk))"
    "instant ((?F ^^ (n - 1)) (ticker_next tk)) = a + int (n - 1) * d"
    using ex [of "n - 1"] by (simp_all add: a_def d_def)
  have "\<not> Time_Before now ((?F ^^ (n - 1)) (ticker_next tk))" using l n(1) by simp
  then have lo: "a + int (n - 1) * d \<le> b"
    using prev assms(1) by (simp add: Time_Before_instant b_def)
  have "Time_Before now ((?F ^^ n) (ticker_next tk))"
    using ticker_after_due(3) [OF assms(4) r] n(2) by simp
  then have hi: "b < a + int n * d"
    using last assms(1) by (simp add: Time_Before_instant b_def)
  have d0: "0 < d" using assms(3) by (simp add: d_def)
  have n1: "int n = int (n - 1) + 1" using n(1) by simp
  have "b - a = d * int (n - 1) + (b - a - int (n - 1) * d)" by (simp add: algebra_simps)
  moreover have "0 \<le> b - a - int (n - 1) * d" using lo by simp
  moreover have "b - a - int (n - 1) * d < d" using hi unfolding n1 by (simp add: algebra_simps)
  ultimately have "(b - a) div d = int (n - 1)"
    using d0 by (intro int_div_pos_eq) simp_all
  then have "int n = (b - a) div d + 1" using n1 by linarith
  then show "instant (ticker_next (ticker_after tk now)) =
           instant (ticker_next tk) +
           ((instant now - instant (ticker_next tk)) div ticker_d tk + 1) * ticker_d tk"
    using last(2) n(2) by (simp add: a_def b_def d_def)
qed

subsection \<open>Removal from a slice without repetitions\<close>

lemma remove_loop_absent:
  "Some t \<notin> set (drop i arr) \<Longrightarrow> remove_loop t i arr len = Inr (arr, len)"
proof (induction "length arr - i" arbitrary: i)
  case 0
  then show ?case by (subst remove_loop.simps) simp
next
  case (Suc n)
  have i: "i < length arr" using Suc.hyps(2) by simp
  have ne: "arr ! i \<noteq> Some t"
    using Suc.prems i by (metis Cons_nth_drop_Suc list.set_intros(1))
  have rest: "Some t \<notin> set (drop (Suc i) arr)"
    using Suc.prems i by (metis Cons_nth_drop_Suc list.set_intros(2))
  have "remove_loop t (Suc i) arr len = Inr (arr, len)"
    using Suc.hyps(2) by (intro Suc.hyps(1) rest) simp
  then show ?case using i ne by (subst remove_loop.simps) simp
qed

lemma remove_loop_prefix:
  "Some t \<notin> set (take i arr) \<Longrightarrow> j \<le> i \<Longrightarrow> i \<le> length arr \<Longrightarrow>
   remove_loop t j arr len = remove_loop t i arr len"
proof (induction "i - j" arbitrary: j)
  case 0
  then show ?case by simp
next
  case (Suc n)
  have j: "j < i" using Suc.hyps(2) by simp
  have ne: "arr ! j \<noteq> Some t"
    using Suc.prems j by (metis in_set_conv_nth length_take min.absorb2 nth_take)
  have "remove_loop t (Suc j) arr len = remove_loop t i arr len"
    using Suc.hyps(2) j Suc.prems by (intro Suc.hyps(1)) simp_all
  then show ?case using j ne Suc.prems by (subst remove_loop.simps) simp
qed

lemma copy_down:
  assumes "i < length arr"
  shows "(map (\<lambda>j. if i \<le> j \<and> j < length arr - Suc 0 then arr ! (j + 1) else arr ! j)
            [0..<length arr])[length arr - Suc 0 := None]
         = take i arr @ drop (Suc i) arr @ [None]"
  using assms by (auto intro!: nth_equalityI simp: nth_append nth_list_update)

lemma remove_loop_present:
  assumes "distinct arr" "i < length arr" "arr ! i = Some t"
  shows "remove_loop t 0 arr (length arr) = Inr (take i arr @ drop (Suc i) arr @ [None], length arr - 1)"
proof -
  have pre: "Some t \<notin> set (take i arr)"
    using assms by (metis distinct_take id_take_nth_drop not_distinct_conv_prefix)
  have post: "Some t \<notin> set (drop (Suc i) arr)"
    using assms by (metis Cons_nth_drop_Suc distinct.simps(2) distinct_drop)
  have "remove_loop t 0 arr (length arr) = remove_loop t i arr (length arr)"
    using pre assms(2) by (intro remove_loop_prefix) simp_all
  also have "\<dots> = remove_loop t (Suc i) (take i arr @ drop (Suc i) arr @ [None]) (length arr - 1)"
    using assms(2,3) by (subst remove_loop.simps) (simp add: copy_down Let_def)
  also have "\<dots> = Inr (take i arr @ drop (Suc i) arr @ [None], length arr - 1)"
    using post assms(2) using set_drop_subset_set_drop [of "Suc i" "Suc (Suc i)" arr]
    by (intro remove_loop_absent) (auto dest: in_set_dropD [of _ _ "[None]"])
  finally show ?thesis .
qed

lemma remove1_nth:
  "distinct xs \<Longrightarrow> i < length xs \<Longrightarrow> remove1 (xs ! i) xs = take i xs @ drop (Suc i) xs"
proof (induction xs arbitrary: i)
  case Nil
  then show ?case by simp
next
  case (Cons x xs)
  then show ?case by (cases i) auto
qed

lemma remove_loop_distinct:
  assumes "distinct arr"
  shows "\<exists>arr' len'. remove_loop t 0 arr (length arr) = Inr (arr', len') \<and>
           take len' arr' = remove1 (Some t) arr"
proof (cases "Some t \<in> set arr")
  case False
  then have "remove_loop t 0 arr (length arr) = Inr (arr, length arr)"
    by (intro remove_loop_absent) simp
  then show ?thesis using False by (simp add: remove1_idem)
next
  case True
  then obtain i where i: "i < length arr" "arr ! i = Some t"
    by (auto simp: in_set_conv_nth)
  have "take (length arr - 1) (take i arr @ drop (Suc i) arr @ [None]) = remove1 (Some t) arr"
    using remove1_nth [OF assms i(1)] i by simp
  then show ?thesis using remove_loop_present [OF assms i] by simp
qed

subsection \<open>The notification loops\<close>

lemma notifyTimers_loop_distinct:
  assumes "None \<notin> set us" "distinct us"
  shows "notifyTimers_loop now us mem left =
           Inr (\<lambda>p. if Some p \<in> set us then fst (timer_update (mem p) now) else mem p,
                left @ filter (\<lambda>u. case u of None \<Rightarrow> True
                                    | Some p \<Rightarrow> \<not> snd (timer_update (mem p) now)) us)"
  using assms
proof (induction us arbitrary: mem left)
  case Nil
  then show ?case by simp
next
  case (Cons u us)
  then obtain p where u: "u = Some p" by (cases u) auto
  obtain tm' dn where upd: "timer_update (mem p) now = (tm', dn)" by (cases "timer_update (mem p) now")
  have fresh: "Some p \<notin> set us" using Cons.prems u by simp
  have same: "\<And>q. Some q \<in> set us \<Longrightarrow> (mem(p := tm')) q = mem q"
    using fresh by auto
  have flt: "filter (\<lambda>u. case u of None \<Rightarrow> True | Some q \<Rightarrow> \<not> snd (timer_update ((mem(p := tm')) q) now)) us
           = filter (\<lambda>u. case u of None \<Rightarrow> True | Some q \<Rightarrow> \<not> snd (timer_update (mem q) now)) us"
    using fresh by (intro filter_cong) (auto split: option.splits)
  have ih: "notifyTimers_loop now us (mem(p := tm')) (if \<not> dn then left @ [Some p] else left) =
         Inr (\<lambda>q. if Some q \<in> set us then fst (timer_update ((mem(p := tm')) q) now) else (mem(p := tm')) q,
              (if \<not> dn then left @ [Some p] else left) @
              filter (\<lambda>u. case u of None \<Rightarrow> True | Some q \<Rightarrow> \<not> snd (timer_update ((mem(p := tm')) q) now)) us)"
    using Cons.prems by (intro Cons.IH) auto
  have fn: "(\<lambda>q. if Some q \<in> set us then fst (timer_update ((mem(p := tm')) q) now) else (mem(p := tm')) q)
          = (\<lambda>q. if Some q \<in> set (u # us) then fst (timer_update (mem q) now) else mem q)"
    using fresh upd u by (auto simp: fun_eq_iff)
  show ?case
    unfolding u notifyTimers_loop.simps upd prod.case ih flt
    using fn upd u by simp
qed

lemma notifyTickers_loop_distinct:
  assumes "None \<notin> set us" "distinct us" "\<forall>k. Some k \<in> set us \<longrightarrow> 0 < ticker_d (mem k)"
    and "\<forall>k. Some k \<in> set us \<longrightarrow> ticker_update (mem k) now \<noteq> None"
  shows "notifyTickers_loop now us mem watches =
           Inr (\<lambda>k. if Some k \<in> set us \<and> \<not> Time_Before now (ticker_next (mem k))
                     then ticker_after (mem k) now else mem k,
                watches @ concat (map (\<lambda>u. case u of None \<Rightarrow> []
                                        | Some k \<Rightarrow> if \<not> Time_Before now (ticker_next (mem k))
                                                     then [ticker_d (mem k)] else []) us))"
  using assms
proof (induction us arbitrary: mem watches)
  case Nil
  then show ?case by simp
next
  case (Cons u us)
  then obtain k where u: "u = Some k" by (cases u) auto
  have pos: "0 < ticker_d (mem k)" using Cons.prems u by simp
  have ret: "ticker_update (mem k) now \<noteq> None" using Cons.prems u by simp
  define tk' where "tk' = (if Time_Before now (ticker_next (mem k)) then mem k
                           else ticker_after (mem k) now)"
  define d where "d = (if Time_Before now (ticker_next (mem k)) then 0 else ticker_d (mem k))"
  have upd: "ticker_update (mem k) now = Some (tk', d)"
    using ret by (simp add: ticker_update_not_due ticker_update_due tk'_def d_def)
  have fresh: "Some k \<notin> set us" using Cons.prems u by simp
  have same: "\<And>q. Some q \<in> set us \<Longrightarrow> (mem(k := tk')) q = mem q"
    using fresh by auto
  have cc: "map (\<lambda>u. case u of None \<Rightarrow> []
                     | Some q \<Rightarrow> if \<not> Time_Before now (ticker_next ((mem(k := tk')) q))
                                  then [ticker_d ((mem(k := tk')) q)] else []) us
          = map (\<lambda>u. case u of None \<Rightarrow> []
                     | Some q \<Rightarrow> if \<not> Time_Before now (ticker_next (mem q))
                                  then [ticker_d (mem q)] else []) us"
    using fresh by (intro map_cong) (auto split: option.splits)
  have ih: "notifyTickers_loop now us (mem(k := tk')) (if d \<noteq> 0 then watches @ [d] else watches) =
         Inr (\<lambda>q. if Some q \<in> set us \<and> \<not> Time_Before now (ticker_next ((mem(k := tk')) q))
                   then ticker_after ((mem(k := tk')) q) now else (mem(k := tk')) q,
              (if d \<noteq> 0 then watches @ [d] else watches) @
              concat (map (\<lambda>u. case u of None \<Rightarrow> []
                     | Some q \<Rightarrow> if \<not> Time_Before now (ticker_next ((mem(k := tk')) q))
                                  then [ticker_d ((mem(k := tk')) q)] else []) us))"
    using Cons.prems same by (intro Cons.IH) auto
  have fn: "(\<lambda>q. if Some q \<in> set us \<and> \<not> Time_Before now (ticker_next ((mem(k := tk')) q))
                   then ticker_after ((mem(k := tk')) q) now else (mem(k := tk')) q)
          = (\<lambda>q. if Some q \<in> set (u # us) \<and> \<not> Time_Before now (ticker_next (mem q))
                   then ticker_after (mem q) now else mem q)"
    using fresh u by (auto simp: fun_eq_iff tk'_def)
  show ?case
    unfolding u notifyTickers_loop.simps upd option.case prod.case ih cc
    using fn u pos by (auto simp: d_def)
qed

lemma notifyTickers_loop_stuck:
  assumes "None \<notin> set us" "distinct us" "Some k \<in> set us" "ticker_update (mem k) now = None"
  shows "notifyTickers_loop now us mem watches = Inl Nontermination"
  using assms
proof (induction us arbitrary: mem watches)
  case Nil
  then show ?case by simp
next
  case (Cons u us)
  then obtain q where u: "u = Some q" by (cases u) auto
  show ?case
  proof (cases "ticker_update (mem q) now")
    case None
    then show ?thesis by (simp add: u)
  next
    case (Some r)
    obtain tk' d where r: "r = (tk', d)" by (cases r)
    have kq: "k \<noteq> q" using Some Cons.prems(4) by auto
    then have k: "Some k \<in> set us" using Cons.prems(3) u by simp
    have "notifyTickers_loop now us (mem(q := tk')) (if d \<noteq> 0 then watches @ [d] else watches)
          = Inl Nontermination"
      using Cons.prems kq k by (intro Cons.IH) simp_all
    then show ?thesis unfolding u notifyTickers_loop.simps Some r by simp
  qed
qed

subsection \<open>Advancing a well-formed world\<close>

lemma call_watch_Nil: "call_watch cb [] w = w"
  by (cases cb) (simp_all add: call_watch_def)

lemma wellformed_timerD:
  "wellformed w \<Longrightarrow> Some p \<in> set (timers_of w) \<Longrightarrow>
     p < timer_top w \<and> valid_time (timer_time (timer_mem w p)) \<and> \<not> timer_fired (timer_mem w p)"
  unfolding wellformed_def by (auto split: option.splits)

lemma wellformed_tickerD:
  "wellformed w \<Longrightarrow> Some k \<in> set (tickers_of w) \<Longrightarrow>
     k < ticker_top w \<and> 0 < ticker_d (ticker_mem w k) \<and> valid_time (ticker_next (ticker_mem w k))"
  unfolding wellformed_def by (auto split: option.splits)

lemma wellformed_no_nil:
  "wellformed w \<Longrightarrow> None \<notin> set (timers_of w) \<and> None \<notin> set (tickers_of w)"
  unfolding wellformed_def by (auto split: option.splits)

lemma wellformed_distinct:
  "wellformed w \<Longrightarrow> distinct (timers_of w) \<and> distinct (tickers_of w)"
  unfolding wellformed_def by simp

lemma wellformed_now: "wellformed w \<Longrightarrow> valid_time (now_of w)"
  unfolding wellformed_def by simp

lemma wellformed_step: "wellformed w \<Longrightarrow> 0 \<le> clock_step (clk w)"
  unfolding wellformed_def by simp

text \<open>Before the last second every pending ticker's \<^verbatim>\<open>update\<close> returns.\<close>

lemma tickers_return_early:
  assumes "wellformed w" "valid_time now" "early now"
  shows "tickers_return w now"
  unfolding tickers_return_def
proof
  fix u assume u: "u \<in> set (tickers_of w)"
  show "case u of None \<Rightarrow> True | Some k \<Rightarrow> ticker_update (ticker_mem w k) now \<noteq> None"
  proof (cases u)
    case None
    then show ?thesis by simp
  next
    case (Some k)
    then show ?thesis
      using wellformed_tickerD [OF assms(1), of k] u assms(2,3)
      by (simp add: ticker_update_returns)
  qed
qed

lemma notifyTimers_wellformed:
  assumes "wellformed w"
  shows "notifyTimers (set_state ((clock_state (clk w))\<lparr>state_t := now\<rparr>) w) =
         Inr (w\<lparr>clk := (clk w)\<lparr>clock_state := (clock_state (clk w))
                    \<lparr>state_t := now,
                     state_timers := filter (\<lambda>u. case u of None \<Rightarrow> True | Some p \<Rightarrow> \<not> due_timer w now p)
                                       (timers_of w)\<rparr>\<rparr>,
                timer_mem := (\<lambda>p. if due_timer w now p then timer_fire (timer_mem w p) now
                               else timer_mem w p)\<rparr>)"
proof -
  have f: "filter (\<lambda>u. case u of None \<Rightarrow> True | Some p \<Rightarrow> \<not> snd (timer_update (timer_mem w p) now)) (timers_of w)
         = filter (\<lambda>u. case u of None \<Rightarrow> True | Some p \<Rightarrow> \<not> due_timer w now p) (timers_of w)"
    using assms
    by (intro filter_cong) (auto split: option.splits simp: timer_update_def due_timer_def dest: wellformed_timerD)
  have m: "(\<lambda>p. if Some p \<in> set (timers_of w) then fst (timer_update (timer_mem w p) now) else timer_mem w p)
         = (\<lambda>p. if due_timer w now p then timer_fire (timer_mem w p) now else timer_mem w p)"
    using assms
    by (auto simp: fun_eq_iff timer_update_def due_timer_def dest: wellformed_timerD)
  have "notifyTimers_loop now (timers_of w) (timer_mem w) [] = 
        Inr (\<lambda>p. if due_timer w now p then timer_fire (timer_mem w p) now else timer_mem w p,
             filter (\<lambda>u. case u of None \<Rightarrow> True | Some p \<Rightarrow> \<not> due_timer w now p) (timers_of w))"
    using notifyTimers_loop_distinct [of "timers_of w" now "timer_mem w" "[]"]
      wellformed_no_nil [OF assms] wellformed_distinct [OF assms]
    by (simp add: f m)
  then show ?thesis
    by (simp add: notifyTimers_def set_state_def now_of_def timers_of_def)
qed

lemma notifyTickers_wellformed:
  assumes "wellformed w"
  shows "notifyTickers (w\<lparr>clk := (clk w)\<lparr>clock_state := (clock_state (clk w))
                    \<lparr>state_t := now, state_timers := ts\<rparr>\<rparr>, timer_mem := tm\<rparr>) =
         (if tickers_return w now then
            Inr (concat (map (\<lambda>u. case u of None \<Rightarrow> []
                                | Some k \<Rightarrow> if due_ticker w now k
                                             then [ticker_d (ticker_mem w k)] else [])
                        (tickers_of w)),
              w\<lparr>clk := (clk w)\<lparr>clock_state := (clock_state (clk w))
                    \<lparr>state_t := now, state_timers := ts\<rparr>\<rparr>, timer_mem := tm,
                ticker_mem := (\<lambda>k. if due_ticker w now k then ticker_after (ticker_mem w k) now
                                else ticker_mem w k)\<rparr>)
          else Inl Nontermination)"
proof (cases "tickers_return w now")
  case True
  have c: "map (\<lambda>u. case u of None \<Rightarrow> []
                   | Some k \<Rightarrow> if \<not> Time_Before now (ticker_next (ticker_mem w k))
                                then [ticker_d (ticker_mem w k)] else []) (tickers_of w)
         = map (\<lambda>u. case u of None \<Rightarrow> []
                   | Some k \<Rightarrow> if Some k \<in> set (tickers_of w) \<and>
                                   \<not> Time_Before now (ticker_next (ticker_mem w k))
                                then [ticker_d (ticker_mem w k)] else []) (tickers_of w)"
    by (intro map_cong) (auto split: option.splits)
  have pos: "\<forall>k. Some k \<in> set (tickers_of w) \<longrightarrow> 0 < ticker_d (ticker_mem w k)"
    using assms by (auto dest: wellformed_tickerD)
  have ret: "\<forall>k. Some k \<in> set (tickers_of w) \<longrightarrow> ticker_update (ticker_mem w k) now \<noteq> None"
    using True unfolding tickers_return_def by (auto split: option.splits)
  have "notifyTickers_loop now (tickers_of w) (ticker_mem w) [] =
        Inr (\<lambda>k. if Some k \<in> set (tickers_of w) \<and> \<not> Time_Before now (ticker_next (ticker_mem w k))
                  then ticker_after (ticker_mem w k) now else ticker_mem w k,
             concat (map (\<lambda>u. case u of None \<Rightarrow> []
                   | Some k \<Rightarrow> if Some k \<in> set (tickers_of w) \<and>
                                   \<not> Time_Before now (ticker_next (ticker_mem w k))
                                then [ticker_d (ticker_mem w k)] else []) (tickers_of w)))"
    using notifyTickers_loop_distinct [of "tickers_of w" "ticker_mem w" now "[]"] pos ret
      wellformed_no_nil [OF assms] wellformed_distinct [OF assms]
    unfolding c by simp
  then show ?thesis
    using True unfolding due_ticker_def notifyTickers_def now_of_def tickers_of_def
    by simp
next
  case False
  then have "\<exists>k. Some k \<in> set (tickers_of w) \<and> ticker_update (ticker_mem w k) now = None"
    unfolding tickers_return_def by (fastforce split: option.splits)
  then obtain k where k: "Some k \<in> set (tickers_of w)" "ticker_update (ticker_mem w k) now = None"
    by blast
  have "notifyTickers_loop now (tickers_of w) (ticker_mem w) [] = Inl Nontermination"
    using wellformed_no_nil [OF assms] wellformed_distinct [OF assms] k
    by (intro notifyTickers_loop_stuck [of _ k]) simp_all
  then show ?thesis
    using False unfolding notifyTickers_def now_of_def tickers_of_def by simp
qed

lemma do_shift:
  assumes "wellformed w" "0 \<le> delta"
  shows "Clock_do (\<lambda>w1. Inr (r w1, set_state ((clock_state (clk w1))
               \<lparr>state_t := Time_Add (state_t (clock_state (clk w1))) delta\<rparr>) w1)) w =
         (if Time_Add (now_of w) delta = now_of w \<or> tickers_return w (Time_Add (now_of w) delta)
          then Inr (r w, advanced delta w) else Inl Nontermination)"
proof (cases "Time_Add (now_of w) delta = now_of w")
  case True
  then have "set_state ((clock_state (clk w))
               \<lparr>state_t := Time_Add (state_t (clock_state (clk w))) delta\<rparr>) w = w"
    by (simp add: set_state_def now_of_def)
  then show ?thesis
    using True by (simp add: Clock_do_def call_watch_Nil advanced_def)
next
  case False
  have eq: "set_state ((clock_state (clk w))\<lparr>state_t := Time_Add (state_t (clock_state (clk w))) delta\<rparr>) w
      = set_state ((clock_state (clk w))\<lparr>state_t := Time_Add (now_of w) delta\<rparr>) w"
    by (simp add: now_of_def)
  have n: "now_of (set_state ((clock_state (clk w))\<lparr>state_t := Time_Add (now_of w) delta\<rparr>) w) \<noteq> now_of w"
    using False by (simp add: now_of_def set_state_def)
  show ?thesis
    unfolding Clock_do_def Let_def sum.case prod.case eq
    using n False
    apply (simp add: notifyTimers_wellformed [OF assms(1)] notifyTickers_wellformed [OF assms(1)])
    apply (cases "clock_watch (clk w)")
    apply (simp_all add: call_watch_def advanced_def Let_def timers_of_def tickers_of_def set_state_def)
    done
qed

lemma Clock_Add_advanced:
  "wellformed w \<Longrightarrow> 0 \<le> delta \<Longrightarrow>
   Clock_Add delta w =
     (if Time_Add (now_of w) delta = now_of w \<or> tickers_return w (Time_Add (now_of w) delta)
      then Inr ((), advanced delta w) else Inl Nontermination)"
  using do_shift [of w delta "\<lambda>_. ()"] by (simp add: Clock_Add_def Let_def)

lemma Clock_do_cong: "f w = g w \<Longrightarrow> Clock_do f w = Clock_do g w"
  by (simp add: Clock_do_def)

lemma Clock_Now_advanced:
  assumes "wellformed w"
  shows "Clock_Now w =
     (if Time_Add (now_of w) (clock_step (clk w)) = now_of w \<or>
         tickers_return w (Time_Add (now_of w) (clock_step (clk w)))
      then Inr (now_of w, advanced (clock_step (clk w)) w) else Inl Nontermination)"
proof -
  have "0 \<le> clock_step (clk w)" using assms by (simp add: wellformed_def)
  from do_shift [OF assms this, of "\<lambda>w1. state_t (clock_state (clk w1))"]
  have "Clock_do (\<lambda>w1. Inr (state_t (clock_state (clk w1)),
             set_state ((clock_state (clk w1))
               \<lparr>state_t := Time_Add (state_t (clock_state (clk w1))) (clock_step (clk w))\<rparr>) w1)) w =
     (if Time_Add (now_of w) (clock_step (clk w)) = now_of w \<or>
         tickers_return w (Time_Add (now_of w) (clock_step (clk w)))
      then Inr (now_of w, advanced (clock_step (clk w)) w) else Inl Nontermination)"
    by (simp add: now_of_def)
  then show ?thesis
    unfolding Clock_Now_def Let_def
    by (subst Clock_do_cong [where g = "\<lambda>w1. Inr (state_t (clock_state (clk w1)),
             set_state ((clock_state (clk w1))
               \<lparr>state_t := Time_Add (state_t (clock_state (clk w1))) (clock_step (clk w))\<rparr>) w1)"]) simp_all
qed

text \<open>An advance before the last second returns.\<close>

lemma Clock_Add_early:
  assumes "wellformed w" "0 \<le> delta" "early (Time_Add (now_of w) delta)"
  shows "Clock_Add delta w = Inr ((), advanced delta w)"
proof -
  have "valid_time (Time_Add (now_of w) delta)"
    using assms(1,2) by (simp add: valid_time_Add wellformed_now)
  then have "tickers_return w (Time_Add (now_of w) delta)"
    using assms(1,3) by (intro tickers_return_early) simp_all
  then show ?thesis using assms(1,2) by (simp add: Clock_Add_advanced)
qed

lemma Clock_Now_early:
  assumes "wellformed w" "early (Time_Add (now_of w) (clock_step (clk w)))"
  shows "Clock_Now w = Inr (now_of w, advanced (clock_step (clk w)) w)"
proof -
  have "valid_time (Time_Add (now_of w) (clock_step (clk w)))"
    using assms(1) by (simp add: valid_time_Add wellformed_now wellformed_step)
  then have "tickers_return w (Time_Add (now_of w) (clock_step (clk w)))"
    using assms by (intro tickers_return_early) simp_all
  then show ?thesis using assms(1) by (simp add: Clock_Now_advanced)
qed

lemma advanced_same:
  "Time_Add (now_of w) delta = now_of w \<Longrightarrow> advanced delta w = w"
  by (simp add: advanced_def)

lemma advanced_simps:
  "now_of (advanced delta w) = Time_Add (now_of w) delta"
  "timers_of (advanced delta w) =
     (if Time_Add (now_of w) delta = now_of w then timers_of w
      else filter (\<lambda>u. case u of None \<Rightarrow> True
                        | Some p \<Rightarrow> \<not> due_timer w (Time_Add (now_of w) delta) p) (timers_of w))"
  "tickers_of (advanced delta w) = tickers_of w"
  "timer_mem (advanced delta w) p =
     (if Time_Add (now_of w) delta \<noteq> now_of w \<and> due_timer w (Time_Add (now_of w) delta) p
      then timer_fire (timer_mem w p) (Time_Add (now_of w) delta)
      else timer_mem w p)"
  "ticker_mem (advanced delta w) k =
     (if Time_Add (now_of w) delta \<noteq> now_of w \<and> due_ticker w (Time_Add (now_of w) delta) k
      then ticker_after (ticker_mem w k) (Time_Add (now_of w) delta)
      else ticker_mem w k)"
  "timer_top (advanced delta w) = timer_top w"
  "ticker_top (advanced delta w) = ticker_top w"
  "clock_step (clk (advanced delta w)) = clock_step (clk w)"
  "clock_watch (clk (advanced delta w)) = clock_watch (clk w)"
  unfolding advanced_def Let_def now_of_def timers_of_def tickers_of_def by simp_all

lemma funpow_Add_valid:
  "valid_time t \<Longrightarrow> 0 \<le> d \<Longrightarrow> valid_time (((\<lambda>t. Time_Add t d) ^^ n) t)"
  by (induction n) (simp_all add: valid_time_Add)

lemma ticker_after_valid:
  assumes "valid_time (ticker_next tk)" "0 < ticker_d tk"
  shows "valid_time (ticker_next (ticker_after tk now))" "ticker_d (ticker_after tk now) = ticker_d tk"
proof -
  have "valid_time (ticker_next (ticker_after tk now)) \<and> ticker_d (ticker_after tk now) = ticker_d tk"
  proof (cases "ticker_update tk now = None")
    case True
    then show ?thesis using assms by (simp add: ticker_after_def)
  next
    case False
    show ?thesis
    proof (cases "Time_Before now (ticker_next tk)")
      case True
      then show ?thesis using assms by (simp add: ticker_after_not_due)
    next
      case F2: False
      from ticker_after_due(4) [OF F2 False] obtain n where
        "ticker_next (ticker_after tk now) = ((\<lambda>t. Time_Add t (ticker_d tk)) ^^ n) (ticker_next tk)"
        by auto
      then show ?thesis
        using assms ticker_after_due(2) [OF F2 False]
        by (simp add: funpow_Add_valid)
    qed
  qed
  then show "valid_time (ticker_next (ticker_after tk now))"
    "ticker_d (ticker_after tk now) = ticker_d tk" by simp_all
qed

lemma advanced_wellformed:
  assumes "wellformed w" "0 \<le> delta"
  shows "wellformed (advanced delta w)"
proof (cases "Time_Add (now_of w) delta = now_of w")
  case True
  then show ?thesis using assms(1) by (simp add: advanced_same)
next
  case False
  let ?now = "Time_Add (now_of w) delta"
  have t: "\<And>p. Some p \<in> set (timers_of w) \<Longrightarrow>
     p < timer_top w \<and> valid_time (timer_time (timer_mem w p)) \<and> \<not> timer_fired (timer_mem w p)"
    using assms by (auto dest: wellformed_timerD)
  have k: "\<And>k. Some k \<in> set (tickers_of w) \<Longrightarrow>
     k < ticker_top w \<and> 0 < ticker_d (ticker_mem w k) \<and> valid_time (ticker_next (ticker_mem w k))"
    using assms by (auto dest: wellformed_tickerD)
  have nn: "None \<notin> set (timers_of w)" "None \<notin> set (tickers_of w)"
    using wellformed_no_nil [OF assms(1)] by simp_all
  have reg: "\<And>p. p < timer_top w \<Longrightarrow> (Some p \<in> set (timers_of w)) = (\<not> timer_fired (timer_mem w p))"
    using assms(1) by (simp add: wellformed_def)
  show ?thesis
    unfolding wellformed_def advanced_simps if_not_P [OF False]
  proof (intro conjI ballI)
    show "0 \<le> clock_step (clk w)" using assms by (simp add: wellformed_def)
    show "valid_time ?now" using assms by (simp add: valid_time_Add wellformed_now)
    show "distinct (filter (\<lambda>u. case u of None \<Rightarrow> True | Some p \<Rightarrow> \<not> due_timer w ?now p) (timers_of w))"
      using wellformed_distinct [OF assms(1)] by simp
    show "distinct (tickers_of w)" using wellformed_distinct [OF assms(1)] by simp
  next
    fix u assume u: "u \<in> set (filter (\<lambda>u. case u of None \<Rightarrow> True | Some p \<Rightarrow> \<not> due_timer w ?now p) (timers_of w))"
    show "case u of None \<Rightarrow> False
          | Some p \<Rightarrow> p < timer_top w \<and>
              valid_time (timer_time (if ?now \<noteq> now_of w \<and> due_timer w ?now p
                 then timer_fire (timer_mem w p) ?now else timer_mem w p))"
    proof (cases u)
      case None
      then show ?thesis using u nn by simp
    next
      case (Some p)
      then show ?thesis using u t [of p] by (auto simp: due_timer_def)
    qed
  next
    fix p assume "p \<in> set [0..<timer_top w]"
    then have "p < timer_top w" by simp
    then show "(Some p \<in> set (filter (\<lambda>u. case u of None \<Rightarrow> True | Some p \<Rightarrow> \<not> due_timer w ?now p) (timers_of w)))
        = (\<not> timer_fired (if ?now \<noteq> now_of w \<and> due_timer w ?now p
              then timer_fire (timer_mem w p) ?now else timer_mem w p))"
      using reg [of p] False by (auto simp: due_timer_def timer_fire_def)
  next
    fix u assume u: "u \<in> set (tickers_of w)"
    show "case u of None \<Rightarrow> False
          | Some k \<Rightarrow> k < ticker_top w \<and>
              0 < ticker_d (if ?now \<noteq> now_of w \<and> due_ticker w ?now k
                     then ticker_after (ticker_mem w k) ?now else ticker_mem w k) \<and>
              valid_time (ticker_next (if ?now \<noteq> now_of w \<and> due_ticker w ?now k
                     then ticker_after (ticker_mem w k) ?now else ticker_mem w k))"
    proof (cases u)
      case None
      then show ?thesis using u nn by simp
    next
      case (Some q)
      then show ?thesis
        using u k [of q] ticker_after_valid [of "ticker_mem w q" ?now]
        by (auto simp: due_ticker_def)
    qed
  qed
qed

subsection \<open>The other operations on a well-formed world\<close>

lemma removeTimer_distinct:
  "distinct (state_timers s) \<Longrightarrow>
   removeTimer s t = Inr (s\<lparr>state_timers := remove1 (Some t) (state_timers s)\<rparr>)"
  using remove_loop_distinct [of "state_timers s" t] by (auto simp: removeTimer_def)

lemma removeTicker_distinct:
  "distinct (state_tickers s) \<Longrightarrow>
   removeTicker s t = Inr (s\<lparr>state_tickers := remove1 (Some t) (state_tickers s)\<rparr>)"
  using remove_loop_distinct [of "state_tickers s" t] by (auto simp: removeTicker_def)

lemma timer_Stop_wellformed:
  assumes "wellformed w"
  shows "timer_Stop p w =
     Inr (\<not> timer_fired (timer_mem w p),
          w\<lparr>clk := (clk w)\<lparr>clock_state := (clock_state (clk w))
                 \<lparr>state_timers := remove1 (Some p) (timers_of w)\<rparr>\<rparr>,
            timer_mem := (timer_mem w)(p := (timer_mem w p)\<lparr>timer_fired := True\<rparr>)\<rparr>)"
proof -
  have "distinct (state_timers (clock_state (clk w)))"
    using wellformed_distinct [OF assms] by (simp add: timers_of_def)
  then show ?thesis
    by (simp add: timer_Stop_def Clock_do_def Let_def removeTimer_distinct set_state_def
        now_of_def call_watch_Nil timers_of_def)
qed

lemma ticker_Stop_wellformed:
  assumes "wellformed w"
  shows "ticker_Stop k w =
     Inr ((), w\<lparr>clk := (clk w)\<lparr>clock_state := (clock_state (clk w))
                 \<lparr>state_tickers := remove1 (Some k) (tickers_of w)\<rparr>\<rparr>\<rparr>)"
proof -
  have "distinct (state_tickers (clock_state (clk w)))"
    using wellformed_distinct [OF assms] by (simp add: tickers_of_def)
  then show ?thesis
    by (simp add: ticker_Stop_def Clock_do_def Let_def removeTicker_distinct set_state_def
        now_of_def call_watch_Nil tickers_of_def)
qed

lemma timer_Reset_wellformed:
  assumes "wellformed w"
  shows "timer_Reset p d w =
     Inr (\<not> timer_fired (timer_mem w p),
          call_watch (clock_watch (clk w)) [d]
            (if 0 < d
             then w\<lparr>clk := (clk w)\<lparr>clock_state := (clock_state (clk w))
                     \<lparr>state_timers := (if Some p \<in> set (timers_of w) then timers_of w
                                        else timers_of w @ [Some p])\<rparr>\<rparr>,
                    timer_mem := (timer_mem w)
                      (p := (timer_mem w p)\<lparr>timer_time := Time_Add (now_of w) d, timer_fired := False\<rparr>)\<rparr>
             else w\<lparr>clk := (clk w)\<lparr>clock_state := (clock_state (clk w))
                     \<lparr>state_timers := remove1 (Some p) (timers_of w)\<rparr>\<rparr>,
                    timer_mem := (timer_mem w)
                      (p := timer_fire ((timer_mem w p)\<lparr>timer_time := now_of w\<rparr>) (now_of w))\<rparr>))"
proof -
  have "distinct (state_timers (clock_state (clk w)))"
    using wellformed_distinct [OF assms] by (simp add: timers_of_def)
  then show ?thesis
    by (simp add: timer_Reset_def Clock_newWatcher_def Let_def removeTimer_distinct set_state_def
        now_of_def timers_of_def timer_init_def addTimer_def timer_fire_def call_watch_def
        split: option.splits)
qed

lemma Clock_NewTimer_eq:
  "Clock_NewTimer d w =
     Inr (timer_top w,
          call_watch (clock_watch (clk w)) [d]
            (if 0 < d
             then w\<lparr>timer_mem := (timer_mem w)
                      (timer_top w := \<lparr>timer_c = None, timer_time = Time_Add (now_of w) d, timer_fired = False\<rparr>),
                    timer_top := Suc (timer_top w),
                    clk := (clk w)\<lparr>clock_state := (clock_state (clk w))
                     \<lparr>state_timers := timers_of w @ [Some (timer_top w)]\<rparr>\<rparr>\<rparr>
             else w\<lparr>timer_mem := (timer_mem w)
                      (timer_top w := \<lparr>timer_c = Some (now_of w), timer_time = now_of w, timer_fired = True\<rparr>),
                    timer_top := Suc (timer_top w)\<rparr>))"
  by (simp add: Clock_NewTimer_def Clock_newWatcher_def Let_def set_state_def
        now_of_def timers_of_def timer_init_def timer_fire_def chan_send_def)

lemma Clock_NewTicker_eq:
  "0 < d \<Longrightarrow> Clock_NewTicker d w =
     Inr (ticker_top w,
          call_watch (clock_watch (clk w)) [d]
            (w\<lparr>ticker_mem := (ticker_mem w)
                 (ticker_top w := \<lparr>ticker_c = None, ticker_d = d, ticker_next = Time_Add (now_of w) d\<rparr>),
               ticker_top := Suc (ticker_top w),
               clk := (clk w)\<lparr>clock_state := (clock_state (clk w))
                     \<lparr>state_tickers := tickers_of w @ [Some (ticker_top w)]\<rparr>\<rparr>\<rparr>))"
  by (simp add: Clock_NewTicker_def Clock_newWatcher_def Let_def set_state_def
        now_of_def tickers_of_def)

lemma Clock_Peek_eq: "Clock_Peek w = Inr (now_of w, w)"
  by (simp add: Clock_Peek_def Clock_do_def Let_def call_watch_Nil now_of_def)

subsection \<open>Every run stays well-formed\<close>

lemma call_watch_simps:
  "clk (call_watch cb args w) = clk w"
  "timer_mem (call_watch cb args w) = timer_mem w"
  "ticker_mem (call_watch cb args w) = ticker_mem w"
  "timer_top (call_watch cb args w) = timer_top w"
  "ticker_top (call_watch cb args w) = ticker_top w"
  "now_of (call_watch cb args w) = now_of w"
  "timers_of (call_watch cb args w) = timers_of w"
  "tickers_of (call_watch cb args w) = tickers_of w"
  by (cases cb; simp add: call_watch_def now_of_def timers_of_def tickers_of_def)+

lemma wellformed_call_watch: "wellformed (call_watch cb args w) = wellformed w"
  unfolding wellformed_def call_watch_simps ..

lemma NewWithStep_wellformed:
  "valid_time start \<Longrightarrow> NewWithStep start step = Inr w \<Longrightarrow> wellformed w"
  by (auto simp: NewWithStep_def wellformed_def timers_of_def tickers_of_def now_of_def
        split: if_splits)

lemma timer_Stop_preserves:
  assumes "wellformed w" "timer_Stop p w = Inr (b, w')"
  shows "wellformed w'"
proof -
  have w': "w' = w\<lparr>clk := (clk w)\<lparr>clock_state := (clock_state (clk w))
                 \<lparr>state_timers := remove1 (Some p) (timers_of w)\<rparr>\<rparr>,
            timer_mem := (timer_mem w)(p := (timer_mem w p)\<lparr>timer_fired := True\<rparr>)\<rparr>"
    using assms by (simp add: timer_Stop_wellformed)
  have d: "distinct (timers_of w)" using wellformed_distinct [OF assms(1)] by simp
  show ?thesis
    using assms(1) d unfolding w' wellformed_def
    by (auto simp: timers_of_def tickers_of_def now_of_def split: option.splits dest: notin_set_remove1)
qed

lemma ticker_Stop_preserves:
  assumes "wellformed w" "ticker_Stop k w = Inr (b, w')"
  shows "wellformed w'"
proof -
  have w': "w' = w\<lparr>clk := (clk w)\<lparr>clock_state := (clock_state (clk w))
                 \<lparr>state_tickers := remove1 (Some k) (tickers_of w)\<rparr>\<rparr>\<rparr>"
    using assms by (simp add: ticker_Stop_wellformed)
  show ?thesis
    using assms(1) unfolding w' wellformed_def
    by (auto simp: timers_of_def tickers_of_def now_of_def split: option.splits dest: notin_set_remove1)
qed

lemma timer_Reset_preserves:
  assumes "wellformed w" "p < timer_top w" "timer_Reset p d w = Inr (b, w')"
  shows "wellformed w'"
proof -
  have d: "distinct (timers_of w)" using wellformed_distinct [OF assms(1)] by simp
  show ?thesis
  proof (cases "0 < d")
    case True
    then have w': "w' = call_watch (clock_watch (clk w)) [d]
             (w\<lparr>clk := (clk w)\<lparr>clock_state := (clock_state (clk w))
                     \<lparr>state_timers := (if Some p \<in> set (timers_of w) then timers_of w
                                        else timers_of w @ [Some p])\<rparr>\<rparr>,
                    timer_mem := (timer_mem w)
                      (p := (timer_mem w p)\<lparr>timer_time := Time_Add (now_of w) d, timer_fired := False\<rparr>)\<rparr>)"
      using assms by (simp add: timer_Reset_wellformed)
    show ?thesis
      using assms(1,2) d True unfolding w' wellformed_call_watch unfolding wellformed_def
      by (auto simp: timers_of_def tickers_of_def now_of_def valid_time_Add split: option.splits)
  next
    case False
    then have w': "w' = call_watch (clock_watch (clk w)) [d]
             (w\<lparr>clk := (clk w)\<lparr>clock_state := (clock_state (clk w))
                     \<lparr>state_timers := remove1 (Some p) (timers_of w)\<rparr>\<rparr>,
                    timer_mem := (timer_mem w)
                      (p := timer_fire ((timer_mem w p)\<lparr>timer_time := now_of w\<rparr>) (now_of w))\<rparr>)"
      using assms by (simp add: timer_Reset_wellformed)
    show ?thesis
      using assms(1,2) d unfolding w' wellformed_call_watch unfolding wellformed_def
      by (auto simp: timers_of_def tickers_of_def now_of_def timer_fire_def
           split: option.splits dest: notin_set_remove1)
  qed
qed

lemma Clock_NewTimer_preserves:
  assumes "wellformed w" "Clock_NewTimer d w = Inr (p, w')"
  shows "wellformed w'"
proof -
  have fresh: "Some (timer_top w) \<notin> set (timers_of w)"
    using assms(1) by (auto dest: wellformed_timerD)
  show ?thesis
  proof (cases "0 < d")
    case True
    show ?thesis
      using assms fresh True unfolding Clock_NewTimer_eq
      apply (clarsimp simp: wellformed_call_watch)
      unfolding wellformed_def
      by (auto simp: timers_of_def tickers_of_def now_of_def less_Suc_eq valid_time_Add
          split: option.splits)
  next
    case False
    show ?thesis
      using assms fresh False unfolding Clock_NewTimer_eq
      apply (clarsimp simp: wellformed_call_watch)
      unfolding wellformed_def
      by (auto simp: timers_of_def tickers_of_def now_of_def less_Suc_eq valid_time_Add
          split: option.splits)
  qed
qed

lemma Clock_NewTicker_preserves:
  assumes "wellformed w" "Clock_NewTicker d w = Inr (k, w')"
  shows "wellformed w'"
proof -
  have fresh: "Some (ticker_top w) \<notin> set (tickers_of w)"
    using assms(1) by (auto dest: wellformed_tickerD)
  have d: "0 < d" using assms(2) by (auto simp: Clock_NewTicker_def split: if_splits)
  show ?thesis
    using assms fresh d unfolding Clock_NewTicker_eq [OF d]
    apply (clarsimp simp: wellformed_call_watch)
    unfolding wellformed_def
    by (auto simp: timers_of_def tickers_of_def now_of_def less_Suc_eq valid_time_Add
          split: option.splits)
qed

lemma exec_wellformed:
  assumes "wellformed w" "exec x w = Inr w'"
  shows "wellformed w'"
proof (cases x)
  case OpNow
  then show ?thesis
    using assms advanced_wellformed [of w "clock_step (clk w)"] wellformed_step [of w]
    by (auto simp: result_world_def Clock_Now_advanced split: if_splits)
next
  case OpPeek
  then show ?thesis using assms by (simp add: result_world_def Clock_Peek_eq)
next
  case (OpAdd delta)
  show ?thesis
  proof (cases "delta < 0")
    case True
    then show ?thesis using assms OpAdd by (simp add: result_world_def Clock_Add_def)
  next
    case False
    then show ?thesis
      using assms OpAdd advanced_wellformed [of w delta]
      by (auto simp: result_world_def Clock_Add_advanced split: if_splits)
  qed
next
  case (OpNewTimer d)
  then show ?thesis
    using assms Clock_NewTimer_preserves [of w d]
    by (auto simp: result_world_def split: sum.splits)
next
  case (OpNewTicker d)
  then show ?thesis
    using assms Clock_NewTicker_preserves [of w d]
    by (auto simp: result_world_def split: sum.splits)
next
  case (OpSetWatchFunc f)
  then show ?thesis
    using assms
    by (auto simp: Clock_SetWatchFunc_def wellformed_def timers_of_def tickers_of_def now_of_def
          split: option.splits)
next
  case (OpReset p d)
  then show ?thesis
    using assms timer_Reset_preserves [of w p d]
    by (auto simp: result_world_def split: sum.splits if_splits)
next
  case (OpStop p)
  then show ?thesis
    using assms timer_Stop_preserves [of w p]
    by (auto simp: result_world_def split: sum.splits if_splits)
next
  case (OpTickerStop k)
  then show ?thesis
    using assms ticker_Stop_preserves [of w k]
    by (auto simp: result_world_def split: sum.splits if_splits)
next
  case (OpTimerRecv p)
  then show ?thesis
    using assms
    by (auto simp: wellformed_def timers_of_def tickers_of_def now_of_def split: if_splits option.splits)
next
  case (OpTickerRecv k)
  then show ?thesis
    using assms
    by (auto simp: wellformed_def timers_of_def tickers_of_def now_of_def split: if_splits option.splits)
qed

lemma run_wellformed: "wellformed w \<Longrightarrow> run xs w = Inr w' \<Longrightarrow> wellformed w'"
proof (induction xs arbitrary: w)
  case Nil
  then show ?case by simp
next
  case (Cons x xs)
  then show ?case by (auto split: sum.splits dest: exec_wellformed)
qed

lemma run_from_wellformed: "run_from start step xs = Inr w \<Longrightarrow> wellformed w"
  by (auto simp: run_from_def split: sum.splits if_splits
        dest: NewWithStep_wellformed run_wellformed)

subsection \<open>The order of pending timers and tickers\<close>

text \<open>
  Before the last second, whatever is pending is due strictly later than the current
  time. The clock's time never leaves the last second once it is there, so the property
  is carried along a run for as long as the time is before the last second.
\<close>

lemma pending_inv_timerD:
  "pending_inv w \<Longrightarrow> Some p \<in> set (timers_of w) \<Longrightarrow>
     \<not> timer_fired (timer_mem w p) \<and> Time_Before (now_of w) (timer_time (timer_mem w p))"
  unfolding pending_inv_def by (auto split: option.splits)

lemma pending_inv_tickerD:
  "pending_inv w \<Longrightarrow> Some k \<in> set (tickers_of w) \<Longrightarrow>
     Time_Before (now_of w) (ticker_next (ticker_mem w k))"
  unfolding pending_inv_def by (auto split: option.splits)

lemma pending_invI:
  assumes "None \<notin> set (timers_of w)" "None \<notin> set (tickers_of w)"
    and "\<And>p. Some p \<in> set (timers_of w) \<Longrightarrow>
           \<not> timer_fired (timer_mem w p) \<and> Time_Before (now_of w) (timer_time (timer_mem w p))"
    and "\<And>k. Some k \<in> set (tickers_of w) \<Longrightarrow>
           Time_Before (now_of w) (ticker_next (ticker_mem w k))"
  shows "pending_inv w"
  unfolding pending_inv_def
proof (intro conjI ballI)
  fix u assume u: "u \<in> set (timers_of w)"
  show "case u of None \<Rightarrow> False
        | Some p \<Rightarrow> \<not> timer_fired (timer_mem w p) \<and>
                   Time_Before (now_of w) (timer_time (timer_mem w p))"
  proof (cases u)
    case None
    then show ?thesis using u assms(1) by simp
  next
    case (Some p)
    then show ?thesis using u assms(3) [of p] by simp
  qed
next
  fix u assume u: "u \<in> set (tickers_of w)"
  show "case u of None \<Rightarrow> False
        | Some k \<Rightarrow> Time_Before (now_of w) (ticker_next (ticker_mem w k))"
  proof (cases u)
    case None
    then show ?thesis using u assms(2) by simp
  next
    case (Some k)
    then show ?thesis using u assms(4) [of k] by simp
  qed
qed

lemma pending_inv_call_watch: "pending_inv (call_watch cb args w) = pending_inv w"
  unfolding pending_inv_def call_watch_simps ..

lemma advanced_pending_inv:
  assumes "wellformed w" "0 \<le> delta" "early (now_of w) \<longrightarrow> pending_inv w"
    and "early (Time_Add (now_of w) delta)"
  shows "pending_inv (advanced delta w)"
proof -
  let ?now = "Time_Add (now_of w) delta"
  have v: "valid_time (now_of w)" using assms(1) by (rule wellformed_now)
  have "early (now_of w)" using v assms(2,4) by (rule early_Time_Add)
  then have inv: "pending_inv w" using assms(3) by simp
  show ?thesis
  proof (cases "?now = now_of w")
    case True
    then show ?thesis using inv by (simp add: advanced_same)
  next
    case False
    have wf': "wellformed (advanced delta w)" using assms(1,2) by (rule advanced_wellformed)
    have v': "valid_time ?now" using v assms(2) by (rule valid_time_Add)
    have ret: "tickers_return w ?now" using assms(1) v' assms(4) by (rule tickers_return_early)
    show ?thesis
    proof (rule pending_invI)
      show "None \<notin> set (timers_of (advanced delta w))" "None \<notin> set (tickers_of (advanced delta w))"
        using wellformed_no_nil [OF wf'] by simp_all
    next
      fix p assume "Some p \<in> set (timers_of (advanced delta w))"
      then have p: "Some p \<in> set (timers_of w)" "\<not> due_timer w ?now p"
        using False by (simp_all add: advanced_simps)
      then have "Time_Before ?now (timer_time (timer_mem w p))" by (simp add: due_timer_def)
      moreover have "\<not> timer_fired (timer_mem w p)"
        using pending_inv_timerD [OF inv p(1)] by simp
      ultimately show "\<not> timer_fired (timer_mem (advanced delta w) p) \<and>
          Time_Before (now_of (advanced delta w)) (timer_time (timer_mem (advanced delta w) p))"
        using p(2) by (simp add: advanced_simps)
    next
      fix k assume "Some k \<in> set (tickers_of (advanced delta w))"
      then have k: "Some k \<in> set (tickers_of w)" by (simp add: advanced_simps)
      show "Time_Before (now_of (advanced delta w)) (ticker_next (ticker_mem (advanced delta w) k))"
      proof (cases "due_ticker w ?now k")
        case True
        then have nb: "\<not> Time_Before ?now (ticker_next (ticker_mem w k))"
          by (simp add: due_ticker_def)
        have "ticker_update (ticker_mem w k) ?now \<noteq> None"
          using ret k unfolding tickers_return_def by (auto split: option.splits)
        from ticker_after_due(3) [OF nb this] show ?thesis
          using True False by (simp add: advanced_simps)
      next
        case F2: False
        then have "Time_Before ?now (ticker_next (ticker_mem w k))"
          using k by (simp add: due_ticker_def)
        then show ?thesis using F2 by (simp add: advanced_simps)
      qed
    qed
  qed
qed

lemma timer_Stop_pending_inv:
  assumes "wellformed w" "pending_inv w" "timer_Stop p w = Inr (b, w')"
  shows "pending_inv w'"
proof -
  have w': "w' = w\<lparr>clk := (clk w)\<lparr>clock_state := (clock_state (clk w))
                 \<lparr>state_timers := remove1 (Some p) (timers_of w)\<rparr>\<rparr>,
            timer_mem := (timer_mem w)(p := (timer_mem w p)\<lparr>timer_fired := True\<rparr>)\<rparr>"
    using assms by (simp add: timer_Stop_wellformed)
  have d: "distinct (timers_of w)" using wellformed_distinct [OF assms(1)] by simp
  show ?thesis
    using assms(2) d unfolding w' pending_inv_def
    by (auto simp: timers_of_def tickers_of_def now_of_def split: option.splits dest: notin_set_remove1)
qed

lemma ticker_Stop_pending_inv:
  assumes "wellformed w" "pending_inv w" "ticker_Stop k w = Inr (b, w')"
  shows "pending_inv w'"
proof -
  have w': "w' = w\<lparr>clk := (clk w)\<lparr>clock_state := (clock_state (clk w))
                 \<lparr>state_tickers := remove1 (Some k) (tickers_of w)\<rparr>\<rparr>\<rparr>"
    using assms by (simp add: ticker_Stop_wellformed)
  show ?thesis
    using assms(2) unfolding w' pending_inv_def
    by (auto simp: timers_of_def tickers_of_def now_of_def split: option.splits dest: notin_set_remove1)
qed

lemma timer_Reset_pending_inv:
  assumes "wellformed w" "pending_inv w" "early (now_of w)" "timer_Reset p d w = Inr (b, w')"
  shows "pending_inv w'"
proof -
  have d: "distinct (timers_of w)" using wellformed_distinct [OF assms(1)] by simp
  have v: "valid_time (now_of w)" using assms(1) by (rule wellformed_now)
  show ?thesis
  proof (cases "0 < d")
    case True
    then have w': "w' = call_watch (clock_watch (clk w)) [d]
             (w\<lparr>clk := (clk w)\<lparr>clock_state := (clock_state (clk w))
                     \<lparr>state_timers := (if Some p \<in> set (timers_of w) then timers_of w
                                        else timers_of w @ [Some p])\<rparr>\<rparr>,
                    timer_mem := (timer_mem w)
                      (p := (timer_mem w p)\<lparr>timer_time := Time_Add (now_of w) d, timer_fired := False\<rparr>)\<rparr>)"
      using assms by (simp add: timer_Reset_wellformed)
    have l: "Time_Before (now_of w) (Time_Add (now_of w) d)"
      using v True assms(3) by (rule Time_Add_later)
    show ?thesis
      using assms(2) d l unfolding w' pending_inv_call_watch unfolding pending_inv_def
      by (auto simp: timers_of_def tickers_of_def now_of_def split: option.splits)
  next
    case False
    then have w': "w' = call_watch (clock_watch (clk w)) [d]
             (w\<lparr>clk := (clk w)\<lparr>clock_state := (clock_state (clk w))
                     \<lparr>state_timers := remove1 (Some p) (timers_of w)\<rparr>\<rparr>,
                    timer_mem := (timer_mem w)
                      (p := timer_fire ((timer_mem w p)\<lparr>timer_time := now_of w\<rparr>) (now_of w))\<rparr>)"
      using assms by (simp add: timer_Reset_wellformed)
    show ?thesis
      using assms(2) d unfolding w' pending_inv_call_watch unfolding pending_inv_def
      by (auto simp: timers_of_def tickers_of_def now_of_def timer_fire_def
           split: option.splits dest: notin_set_remove1)
  qed
qed

lemma Clock_NewTimer_pending_inv:
  assumes "wellformed w" "pending_inv w" "early (now_of w)" "Clock_NewTimer d w = Inr (p, w')"
  shows "pending_inv w'"
proof -
  have fresh: "Some (timer_top w) \<notin> set (timers_of w)"
    using assms(1) by (auto dest: wellformed_timerD)
  have v: "valid_time (now_of w)" using assms(1) by (rule wellformed_now)
  show ?thesis
  proof (cases "0 < d")
    case True
    have l: "Time_Before (now_of w) (Time_Add (now_of w) d)"
      using v True assms(3) by (rule Time_Add_later)
    show ?thesis
      using assms(2,4) fresh True l unfolding Clock_NewTimer_eq
      apply (clarsimp simp: pending_inv_call_watch)
      unfolding pending_inv_def
      by (auto simp: timers_of_def tickers_of_def now_of_def split: option.splits)
  next
    case False
    show ?thesis
      using assms(2,4) fresh False unfolding Clock_NewTimer_eq
      apply (clarsimp simp: pending_inv_call_watch)
      unfolding pending_inv_def
      by (auto simp: timers_of_def tickers_of_def now_of_def split: option.splits)
  qed
qed

lemma Clock_NewTicker_pending_inv:
  assumes "wellformed w" "pending_inv w" "early (now_of w)" "Clock_NewTicker d w = Inr (k, w')"
  shows "pending_inv w'"
proof -
  have fresh: "Some (ticker_top w) \<notin> set (tickers_of w)"
    using assms(1) by (auto dest: wellformed_tickerD)
  have d: "0 < d" using assms(4) by (auto simp: Clock_NewTicker_def split: if_splits)
  have v: "valid_time (now_of w)" using assms(1) by (rule wellformed_now)
  have l: "Time_Before (now_of w) (Time_Add (now_of w) d)"
    using v d assms(3) by (rule Time_Add_later)
  show ?thesis
    using assms(2,4) fresh d l unfolding Clock_NewTicker_eq [OF d]
    apply (clarsimp simp: pending_inv_call_watch)
    unfolding pending_inv_def
    by (auto simp: timers_of_def tickers_of_def now_of_def split: option.splits)
qed

text \<open>No operation moves the seconds of the time back.\<close>

lemma exec_ext_mono:
  assumes "wellformed w" "exec x w = Inr w'"
  shows "time_ext (now_of w) \<le> time_ext (now_of w')"
proof -
  have v: "valid_time (now_of w)" using assms(1) by (rule wellformed_now)
  show ?thesis
  proof (cases x)
    case OpNow
    then show ?thesis
      using assms v wellformed_step [OF assms(1)]
        Time_Add_ext_mono [of "now_of w" "clock_step (clk w)"]
      by (auto simp: result_world_def Clock_Now_advanced advanced_simps split: if_splits)
  next
    case OpPeek
    then show ?thesis using assms by (simp add: result_world_def Clock_Peek_eq)
  next
    case (OpAdd delta)
    show ?thesis
    proof (cases "delta < 0")
      case True
      then show ?thesis using assms OpAdd by (simp add: result_world_def Clock_Add_def)
    next
      case False
      then show ?thesis
        using assms OpAdd v Time_Add_ext_mono [of "now_of w" delta]
        by (auto simp: result_world_def Clock_Add_advanced advanced_simps split: if_splits)
    qed
  next
    case (OpNewTimer d)
    then show ?thesis
      using assms by (auto simp: result_world_def Clock_NewTimer_eq call_watch_simps now_of_def)
  next
    case (OpNewTicker d)
    show ?thesis
    proof (cases "0 < d")
      case True
      then show ?thesis
        using assms OpNewTicker
        by (auto simp: result_world_def Clock_NewTicker_eq call_watch_simps now_of_def)
    next
      case False
      then show ?thesis
        using assms OpNewTicker by (simp add: result_world_def Clock_NewTicker_def)
    qed
  next
    case (OpSetWatchFunc f)
    then show ?thesis using assms by (auto simp: Clock_SetWatchFunc_def now_of_def)
  next
    case (OpReset p d)
    then show ?thesis
      using assms
      by (auto simp: result_world_def timer_Reset_wellformed call_watch_simps now_of_def
            split: if_splits)
  next
    case (OpStop p)
    then show ?thesis
      using assms
      by (auto simp: result_world_def timer_Stop_wellformed now_of_def split: if_splits)
  next
    case (OpTickerStop k)
    then show ?thesis
      using assms
      by (auto simp: result_world_def ticker_Stop_wellformed now_of_def split: if_splits)
  next
    case (OpTimerRecv p)
    then show ?thesis using assms by (auto simp: now_of_def split: if_splits)
  next
    case (OpTickerRecv k)
    then show ?thesis using assms by (auto simp: now_of_def split: if_splits)
  qed
qed

lemma exec_pending_inv:
  assumes "wellformed w" "early (now_of w) \<longrightarrow> pending_inv w" "exec x w = Inr w'"
    and "early (now_of w')"
  shows "pending_inv w'"
proof -
  have "time_ext (now_of w) \<le> time_ext (now_of w')" using assms(1,3) by (rule exec_ext_mono)
  then have e: "early (now_of w)" using assms(4) by (simp add: early_def)
  then have inv: "pending_inv w" using assms(2) by simp
  show ?thesis
  proof (cases x)
    case OpNow
    then have "w' = advanced (clock_step (clk w)) w"
      using assms(1,3) by (auto simp: result_world_def Clock_Now_advanced split: if_splits)
    then show ?thesis
      using advanced_pending_inv [OF assms(1) wellformed_step [OF assms(1)] assms(2)] assms(4)
      by (simp add: advanced_simps)
  next
    case OpPeek
    then show ?thesis using assms inv by (simp add: result_world_def Clock_Peek_eq)
  next
    case (OpAdd delta)
    show ?thesis
    proof (cases "delta < 0")
      case True
      then show ?thesis using assms OpAdd by (simp add: result_world_def Clock_Add_def)
    next
      case False
      then have "w' = advanced delta w"
        using assms(1,3) OpAdd
        by (auto simp: result_world_def Clock_Add_advanced split: if_splits)
      then show ?thesis
        using advanced_pending_inv [OF assms(1) _ assms(2), of delta] assms(4) False
        by (simp add: advanced_simps)
    qed
  next
    case (OpNewTimer d)
    then show ?thesis
      using assms(1,3) inv e Clock_NewTimer_pending_inv [of w d]
      by (auto simp: result_world_def split: sum.splits)
  next
    case (OpNewTicker d)
    then show ?thesis
      using assms(1,3) inv e Clock_NewTicker_pending_inv [of w d]
      by (auto simp: result_world_def split: sum.splits)
  next
    case (OpSetWatchFunc f)
    then show ?thesis
      using assms(3) inv
      by (auto simp: Clock_SetWatchFunc_def pending_inv_def timers_of_def tickers_of_def now_of_def
            split: option.splits)
  next
    case (OpReset p d)
    then show ?thesis
      using assms(1,3) inv e timer_Reset_pending_inv [of w p d]
      by (auto simp: result_world_def split: sum.splits if_splits)
  next
    case (OpStop p)
    then show ?thesis
      using assms(1,3) inv timer_Stop_pending_inv [of w p]
      by (auto simp: result_world_def split: sum.splits if_splits)
  next
    case (OpTickerStop k)
    then show ?thesis
      using assms(1,3) inv ticker_Stop_pending_inv [of w k]
      by (auto simp: result_world_def split: sum.splits if_splits)
  next
    case (OpTimerRecv p)
    then show ?thesis
      using assms(3) inv
      by (auto simp: pending_inv_def timers_of_def tickers_of_def now_of_def
            split: if_splits option.splits)
  next
    case (OpTickerRecv k)
    then show ?thesis
      using assms(3) inv
      by (auto simp: pending_inv_def timers_of_def tickers_of_def now_of_def
            split: if_splits option.splits)
  qed
qed

lemma run_pending_inv:
  "wellformed w \<Longrightarrow> early (now_of w) \<longrightarrow> pending_inv w \<Longrightarrow> run xs w = Inr w' \<Longrightarrow>
   early (now_of w') \<longrightarrow> pending_inv w'"
proof (induction xs arbitrary: w)
  case Nil
  then show ?case by simp
next
  case (Cons x xs)
  from Cons.prems(3) obtain w1 where w1: "exec x w = Inr w1" "run xs w1 = Inr w'"
    by (auto split: sum.splits)
  have wf1: "wellformed w1" using Cons.prems(1) w1(1) by (rule exec_wellformed)
  have "early (now_of w1) \<longrightarrow> pending_inv w1"
    using exec_pending_inv [OF Cons.prems(1,2) w1(1)] by simp
  from Cons.IH [OF wf1 this w1(2)] show ?case .
qed

lemma run_ext_mono:
  "wellformed w \<Longrightarrow> run xs w = Inr w' \<Longrightarrow> time_ext (now_of w) \<le> time_ext (now_of w')"
proof (induction xs arbitrary: w)
  case Nil
  then show ?case by simp
next
  case (Cons x xs)
  from Cons.prems(2) obtain w1 where w1: "exec x w = Inr w1" "run xs w1 = Inr w'"
    by (auto split: sum.splits)
  have wf1: "wellformed w1" using Cons.prems(1) w1(1) by (rule exec_wellformed)
  have "time_ext (now_of w) \<le> time_ext (now_of w1)" using Cons.prems(1) w1(1) by (rule exec_ext_mono)
  moreover have "time_ext (now_of w1) \<le> time_ext (now_of w')" using wf1 w1(2) by (rule Cons.IH)
  ultimately show ?case by simp
qed

lemma NewWithStep_pending_inv: "NewWithStep start step = Inr w \<Longrightarrow> pending_inv w"
  by (auto simp: NewWithStep_def pending_inv_def timers_of_def tickers_of_def split: if_splits)

lemma run_from_pending_inv:
  assumes "run_from start step xs = Inr w" "early (now_of w)"
  shows "pending_inv w"
proof -
  from assms(1) obtain w0 where w0: "valid_time start" "NewWithStep start step = Inr w0"
    "run xs w0 = Inr w"
    by (auto simp: run_from_def split: sum.splits if_splits)
  have "wellformed w0" using w0(1,2) by (rule NewWithStep_wellformed)
  moreover have "early (now_of w0) \<longrightarrow> pending_inv w0"
    using NewWithStep_pending_inv [OF w0(2)] by simp
  ultimately show ?thesis using run_pending_inv [OF _ _ w0(3)] assms(2) by simp
qed

subsection \<open>Sequences of advances\<close>

lemma Time_Add_Add:
  assumes "valid_time t" "0 \<le> a" "0 \<le> b" "instant t + a + b < last_second"
  shows "Time_Add (Time_Add t a) b = Time_Add t (a + b)"
proof -
  have va: "valid_time (Time_Add t a)" using assms(1,2) by (rule valid_time_Add)
  have ia: "instant (Time_Add t a) = instant t + a"
    using assms by (intro Time_Add_exact) simp_all
  have "instant (Time_Add (Time_Add t a) b) = instant t + a + b"
    using va assms(3,4) ia by (simp add: Time_Add_exact)
  moreover have "instant (Time_Add t (a + b)) = instant t + (a + b)"
    using assms by (intro Time_Add_exact) simp_all
  moreover have "valid_time (Time_Add (Time_Add t a) b)" using va assms(3) by (rule valid_time_Add)
  moreover have "valid_time (Time_Add t (a + b))" using assms by (intro valid_time_Add) simp_all
  ultimately show ?thesis by (intro instant_inj) simp_all
qed

lemma exec_advance:
  assumes "wellformed w" "is_advance x"
  shows "0 \<le> advance_total (clock_step (clk w)) [x]"
    and "exec x w =
      (if Time_Add (now_of w) (advance_total (clock_step (clk w)) [x]) = now_of w \<or>
          tickers_return w (Time_Add (now_of w) (advance_total (clock_step (clk w)) [x]))
       then Inr (advanced (advance_total (clock_step (clk w)) [x]) w)
       else Inl Nontermination)"
proof -
  show "0 \<le> advance_total (clock_step (clk w)) [x]"
    using assms wellformed_step [OF assms(1)] by (cases x) simp_all
  show "exec x w =
      (if Time_Add (now_of w) (advance_total (clock_step (clk w)) [x]) = now_of w \<or>
          tickers_return w (Time_Add (now_of w) (advance_total (clock_step (clk w)) [x]))
       then Inr (advanced (advance_total (clock_step (clk w)) [x]) w)
       else Inl Nontermination)"
  proof (cases x)
    case OpNow
    then show ?thesis
      using assms by (simp add: result_world_def Clock_Now_advanced)
  next
    case (OpAdd delta)
    then show ?thesis
      using assms by (simp add: result_world_def Clock_Add_advanced)
  qed (use assms in auto)
qed

lemma advance_total_Cons:
  "is_advance x \<Longrightarrow> advance_total step (x # xs) = advance_total step [x] + advance_total step xs"
  by (cases x) simp_all

lemma advance_total_nonneg:
  "0 \<le> step \<Longrightarrow> list_all is_advance xs \<Longrightarrow> 0 \<le> advance_total step xs"
proof (induction xs)
  case Nil
  then show ?case by simp
next
  case (Cons x xs)
  then show ?case by (cases x) simp_all
qed

text \<open>
  A sequence of advances that stays before the last second returns, and has moved the
  time by exactly what was asked.
\<close>

lemma run_advances_return:
  assumes "wellformed w" "list_all is_advance xs"
    and "instant (now_of w) + advance_total (clock_step (clk w)) xs < last_second"
  shows "\<exists>w2. run xs w = Inr w2 \<and>
           instant (now_of w2) = instant (now_of w) + advance_total (clock_step (clk w)) xs \<and>
           now_of w2 = Time_Add (now_of w) (advance_total (clock_step (clk w)) xs)"
  using assms
proof (induction xs arbitrary: w)
  case Nil
  then show ?case by (simp add: Time_Add_zero wellformed_now)
next
  case (Cons x xs)
  let ?s = "clock_step (clk w)"
  let ?d = "advance_total ?s [x]"
  let ?r = "advance_total ?s xs"
  let ?w = "advanced ?d w"
  have adv: "is_advance x" "list_all is_advance xs" using Cons.prems(2) by simp_all
  have d: "0 \<le> ?d" using Cons.prems(1) adv(1) by (rule exec_advance(1))
  have r: "0 \<le> ?r" using wellformed_step [OF Cons.prems(1)] adv(2) by (rule advance_total_nonneg)
  have tot: "advance_total ?s (x # xs) = ?d + ?r" using adv(1) by (rule advance_total_Cons)
  have v: "valid_time (now_of w)" using Cons.prems(1) by (rule wellformed_now)
  have lt: "instant (now_of w) + ?d + ?r < last_second" using Cons.prems(3) tot by simp
  then have lt1: "instant (now_of w) + ?d < last_second" using r by simp
  have i1: "instant (Time_Add (now_of w) ?d) = instant (now_of w) + ?d"
    using v d lt1 by (rule Time_Add_exact)
  have v1: "valid_time (Time_Add (now_of w) ?d)" using v d by (rule valid_time_Add)
  have "early (Time_Add (now_of w) ?d)" using v1 i1 lt1 by (simp add: early_instant)
  then have "tickers_return w (Time_Add (now_of w) ?d)"
    using Cons.prems(1) v1 by (intro tickers_return_early) simp_all
  then have ex: "exec x w = Inr ?w" using exec_advance(2) [OF Cons.prems(1) adv(1)] by simp
  have wf: "wellformed ?w" using Cons.prems(1) d by (rule advanced_wellformed)
  have st: "clock_step (clk ?w) = ?s" by (simp add: advanced_simps)
  have n1: "now_of ?w = Time_Add (now_of w) ?d" by (simp add: advanced_simps)
  have "instant (now_of ?w) + advance_total (clock_step (clk ?w)) xs < last_second"
    unfolding st n1 i1 using lt .
  from Cons.IH [OF wf adv(2) this] obtain w2 where
    w2: "run xs ?w = Inr w2" "instant (now_of w2) = instant (now_of ?w) + ?r"
      "now_of w2 = Time_Add (now_of ?w) ?r"
    unfolding st by blast
  have "Time_Add (Time_Add (now_of w) ?d) ?r = Time_Add (now_of w) (?d + ?r)"
    using v d r lt by (rule Time_Add_Add)
  then show ?case using ex w2 tot n1 i1 by simp
qed

text \<open>A timer that is not pending is left alone by every advance.\<close>

lemma advances_keep_unregistered:
  assumes "wellformed w" "Some p \<notin> set (timers_of w)" "list_all is_advance xs"
    and "run xs w = Inr w2"
  shows "timer_mem w2 p = timer_mem w p \<and> Some p \<notin> set (timers_of w2)"
  using assms
proof (induction xs arbitrary: w)
  case Nil
  then show ?case by simp
next
  case (Cons x xs)
  let ?d = "advance_total (clock_step (clk w)) [x]"
  let ?w = "advanced ?d w"
  have adv: "is_advance x" "list_all is_advance xs" using Cons.prems(3) by simp_all
  have d: "0 \<le> ?d" using Cons.prems(1) adv(1) by (rule exec_advance(1))
  from Cons.prems(4) obtain w1 where w1: "exec x w = Inr w1" "run xs w1 = Inr w2"
    by (auto split: sum.splits)
  have "w1 = ?w" using w1(1) exec_advance(2) [OF Cons.prems(1) adv(1)] by (auto split: if_splits)
  then have run: "run xs ?w = Inr w2" using w1(2) by simp
  have wf: "wellformed ?w" using Cons.prems(1) d by (rule advanced_wellformed)
  have nr: "Some p \<notin> set (timers_of ?w)" using Cons.prems(2) by (simp add: advanced_simps)
  have same: "timer_mem ?w p = timer_mem w p"
    using Cons.prems(2) by (simp add: advanced_simps due_timer_def)
  from Cons.IH [OF wf nr adv(2) run] same show ?case by simp
qed

lemma crossing_bounds:
  "\<forall>x\<in>set ds. 0 \<le> x \<Longrightarrow> d \<le> sum_list ds \<Longrightarrow> 0 < d \<Longrightarrow>
   d \<le> crossing d ds \<and> crossing d ds \<le> sum_list ds"
proof (induction ds arbitrary: d)
  case Nil
  then show ?case by simp
next
  case (Cons x ds)
  show ?case
  proof (cases "d \<le> x")
    case True
    have "0 \<le> sum_list ds" using Cons.prems(1) by (simp add: sum_list_nonneg)
    then show ?thesis using True by simp
  next
    case False
    have "d - x \<le> crossing (d - x) ds \<and> crossing (d - x) ds \<le> sum_list ds"
      using Cons.prems False by (intro Cons.IH) simp_all
    then show ?thesis using False by simp
  qed
qed

text \<open>
  A pending timer with an empty channel, due \<open>r\<close> after the current time (or in the last
  second, when that is where \<^verbatim>\<open>Add\<close> stopped), across advances that stay before the last
  second.
\<close>

lemma pending_timer_advances:
  assumes "wellformed w" "Some p \<in> set (timers_of w)"
    "timer_c (timer_mem w p) = None" "0 < r"
    "instant (timer_time (timer_mem w p)) = instant (now_of w) + r \<or>
     time_ext (timer_time (timer_mem w p)) = maxInt64 \<and> last_second \<le> instant (now_of w) + r"
    "\<forall>x\<in>set ds. 0 \<le> x"
    "instant (now_of w) + sum_list ds < last_second"
  shows "\<exists>w2. run (map OpAdd ds) w = Inr w2 \<and>
           timer_c (timer_mem w2 p) =
             (if sum_list ds < r then None else Some (Time_Add (now_of w) (crossing r ds)))"
  using assms
proof (induction ds arbitrary: w r)
  case Nil
  then show ?case by simp
next
  case (Cons x ds)
  have x: "0 \<le> x" and ds: "\<forall>y\<in>set ds. 0 \<le> y" using Cons.prems(6) by simp_all
  have sds: "0 \<le> sum_list ds" using ds by (simp add: sum_list_nonneg)
  let ?now = "Time_Add (now_of w) x"
  let ?w = "advanced x w"
  let ?T = "timer_time (timer_mem w p)"
  have v: "valid_time (now_of w)" using Cons.prems(1) by (rule wellformed_now)
  have vT: "valid_time ?T" using wellformed_timerD [OF Cons.prems(1,2)] by simp
  have lt: "instant (now_of w) + x + sum_list ds < last_second" using Cons.prems(7) by simp
  then have lt1: "instant (now_of w) + x < last_second" using sds by simp
  have i1: "instant ?now = instant (now_of w) + x" using v x lt1 by (rule Time_Add_exact)
  have v1: "valid_time ?now" using v x by (rule valid_time_Add)
  have e1: "early ?now" using v1 i1 lt1 by (simp add: early_instant)
  have add: "Clock_Add x w = Inr ((), ?w)" using Cons.prems(1) x e1 by (rule Clock_Add_early)
  then have ex: "exec (OpAdd x) w = Inr ?w" by (simp add: result_world_def)
  have wf: "wellformed ?w" using Cons.prems(1) x by (rule advanced_wellformed)
  have n1: "now_of ?w = ?now" by (simp add: advanced_simps)
  have lt': "instant (now_of ?w) + sum_list ds < last_second" unfolding n1 i1 using lt .
  have due_iff: "due_timer w ?now p \<longleftrightarrow> instant ?T \<le> instant ?now"
    using Cons.prems(2) v1 vT by (simp add: due_timer_def Time_Before_instant not_less)
  show ?case
  proof (cases "r \<le> x")
    case True
    have exact: "instant ?T = instant (now_of w) + r"
      using Cons.prems(5) True lt1 by auto
    have x0: "0 < x" using True Cons.prems(4) by simp
    have ne: "?now \<noteq> now_of w" using i1 x0 by auto
    have due: "due_timer w ?now p" using due_iff exact i1 True by simp
    have c: "timer_c (timer_mem ?w p) = Some ?now"
      using due ne Cons.prems(3) by (simp add: advanced_simps timer_fire_def chan_send_def)
    have nr: "Some p \<notin> set (timers_of ?w)"
      using due ne by (simp add: advanced_simps)
    have adv: "list_all is_advance (map OpAdd ds)"
      using ds by (simp add: list_all_iff)
    have tot: "advance_total (clock_step (clk ?w)) (map OpAdd ds) = sum_list ds"
      by (induction ds) simp_all
    from run_advances_return [OF wf adv] lt' tot
    obtain w2 where w2: "run (map OpAdd ds) ?w = Inr w2" by auto
    from advances_keep_unregistered [OF wf nr adv w2]
    have "timer_mem w2 p = timer_mem ?w p" by simp
    moreover have "\<not> sum_list (x # ds) < r" using True sds by simp
    ultimately show ?thesis using w2 c ex True by simp
  next
    case False
    have nd: "\<not> due_timer w ?now p"
    proof (cases "instant ?T = instant (now_of w) + r")
      case True
      then show ?thesis using due_iff i1 False by simp
    next
      case F2: False
      then have "time_ext ?T = maxInt64" using Cons.prems(5) by simp
      then have "Time_Before ?now ?T" using e1 by (simp add: Time_Before_def early_def)
      then show ?thesis by (simp add: due_timer_def)
    qed
    have reg: "Some p \<in> set (timers_of ?w)"
      using nd Cons.prems(2) by (simp add: advanced_simps)
    have c: "timer_c (timer_mem ?w p) = None"
      using nd Cons.prems(3) by (simp add: advanced_simps)
    have rx: "0 < r - x" using False by simp
    have tm: "instant (timer_time (timer_mem ?w p)) = instant (now_of ?w) + (r - x) \<or>
        time_ext (timer_time (timer_mem ?w p)) = maxInt64 \<and>
        last_second \<le> instant (now_of ?w) + (r - x)"
      using nd Cons.prems(5) unfolding n1 i1 by (auto simp: advanced_simps)
    from Cons.IH [OF wf reg c rx tm ds lt']
    obtain w2 where w2: "run (map OpAdd ds) ?w = Inr w2"
      "timer_c (timer_mem w2 p) =
         (if sum_list ds < r - x then None else Some (Time_Add (now_of ?w) (crossing (r - x) ds)))"
      by auto
    have cr: "\<not> sum_list ds < r - x \<Longrightarrow>
        Time_Add ?now (crossing (r - x) ds) = Time_Add (now_of w) (x + crossing (r - x) ds)"
    proof -
      assume a: "\<not> sum_list ds < r - x"
      have b: "r - x \<le> crossing (r - x) ds \<and> crossing (r - x) ds \<le> sum_list ds"
        using crossing_bounds [OF ds _ rx] a by simp
      then have "instant (now_of w) + x + crossing (r - x) ds < last_second" using lt by simp
      moreover have "0 \<le> crossing (r - x) ds" using b rx by simp
      ultimately show ?thesis using v x by (intro Time_Add_Add) simp_all
    qed
    show ?thesis using w2 ex False cr unfolding n1 by auto
  qed
qed

subsection \<open>The direction of time\<close>

text \<open>
  From a time before the last second no operation goes back. In the last second an
  advance can: \<^verbatim>\<open>Add\<close> has carried the nanoseconds before it finds the seconds full.
\<close>

lemma exec_now_mono:
  assumes "wellformed w" "exec x w = Inr w'" "early (now_of w)"
  shows "\<not> Time_Before (now_of w') (now_of w)"
proof -
  have v: "valid_time (now_of w)" using assms(1) by (rule wellformed_now)
  have same: "now_of w' = now_of w \<Longrightarrow> ?thesis" by (simp add: Time_Before_def)
  show ?thesis
  proof (cases x)
    case OpNow
    then have "now_of w' = Time_Add (now_of w) (clock_step (clk w))"
      using assms(1,2)
      by (auto simp: result_world_def Clock_Now_advanced advanced_simps split: if_splits)
    then show ?thesis
      using Time_Add_not_earlier [OF v wellformed_step [OF assms(1)] assms(3)] by simp
  next
    case (OpAdd delta)
    show ?thesis
    proof (cases "delta < 0")
      case True
      then show ?thesis using assms OpAdd by (simp add: result_world_def Clock_Add_def)
    next
      case False
      then have "now_of w' = Time_Add (now_of w) delta"
        using assms(1,2) OpAdd
        by (auto simp: result_world_def Clock_Add_advanced advanced_simps split: if_splits)
      then show ?thesis
        using Time_Add_not_earlier [OF v _ assms(3), of delta] False by simp
    qed
  next
    case OpPeek
    then have "now_of w' = now_of w"
      using assms
      by (auto simp: result_world_def Clock_Peek_eq)
    then show ?thesis by (rule same)
  next
    case (OpNewTimer d)
    then have "now_of w' = now_of w"
      using assms
      by (auto simp: result_world_def Clock_NewTimer_eq call_watch_simps now_of_def)
    then show ?thesis by (rule same)
  next
    case (OpNewTicker d)
    show ?thesis
    proof (cases "0 < d")
      case True
      then have "now_of w' = now_of w"
        using assms OpNewTicker
        by (auto simp: result_world_def Clock_NewTicker_eq call_watch_simps now_of_def)
      then show ?thesis by (rule same)
    next
      case False
      then show ?thesis using assms OpNewTicker by (simp add: result_world_def Clock_NewTicker_def)
    qed
  next
    case (OpSetWatchFunc f)
    then have "now_of w' = now_of w"
      using assms
      by (auto simp: Clock_SetWatchFunc_def now_of_def)
    then show ?thesis by (rule same)
  next
    case (OpReset p d)
    then have "now_of w' = now_of w"
      using assms
      by (auto simp: result_world_def timer_Reset_wellformed call_watch_simps now_of_def split: if_splits)
    then show ?thesis by (rule same)
  next
    case (OpStop p)
    then have "now_of w' = now_of w"
      using assms
      by (auto simp: result_world_def timer_Stop_wellformed now_of_def split: if_splits)
    then show ?thesis by (rule same)
  next
    case (OpTickerStop k)
    then have "now_of w' = now_of w"
      using assms
      by (auto simp: result_world_def ticker_Stop_wellformed now_of_def split: if_splits)
    then show ?thesis by (rule same)
  next
    case (OpTimerRecv p)
    then have "now_of w' = now_of w"
      using assms
      by (auto simp: now_of_def split: if_splits)
    then show ?thesis by (rule same)
  next
    case (OpTickerRecv k)
    then have "now_of w' = now_of w"
      using assms
      by (auto simp: now_of_def split: if_splits)
    then show ?thesis by (rule same)
  qed
qed

lemma run_now_mono:
  "wellformed w \<Longrightarrow> run xs w = Inr w' \<Longrightarrow> early (now_of w) \<Longrightarrow>
   \<not> Time_Before (now_of w') (now_of w)"
proof (induction xs arbitrary: w)
  case Nil
  then show ?case by (simp add: Time_Before_def)
next
  case (Cons x xs)
  from Cons.prems(2) obtain w1 where s: "exec x w = Inr w1" "run xs w1 = Inr w'"
    by (auto split: sum.splits)
  have wf1: "wellformed w1" using Cons.prems(1) s(1) by (rule exec_wellformed)
  have a: "\<not> Time_Before (now_of w1) (now_of w)"
    using Cons.prems(1) s(1) Cons.prems(3) by (rule exec_now_mono)
  show ?case
  proof (cases "early (now_of w1)")
    case True
    have "\<not> Time_Before (now_of w') (now_of w1)" using wf1 s(2) True by (rule Cons.IH)
    then show ?thesis using a unfolding Time_Before_def by linarith
  next
    case False
    have "time_ext (now_of w1) \<le> time_ext (now_of w')" using wf1 s(2) by (rule run_ext_mono)
    then show ?thesis using False Cons.prems(3) unfolding Time_Before_def early_def by linarith
  qed
qed

section \<open>Running the model\<close>

text \<open>The definitions unfolded to run the model on a concrete input.\<close>

lemmas eval_defs0 = run_from_def NewWithStep_def result_world_def
  Clock_NewTimer_def Clock_NewTicker_def Clock_Add_def Clock_Now_def Clock_Peek_def
  Clock_SetWatchFunc_def Clock_do_def Clock_newWatcher_def
  timer_Reset_def timer_Stop_def ticker_Stop_def
  notifyTimers_def notifyTickers_def timer_update_def timer_fire_def timer_init_def
  chan_send_def chan_recv_def call_watch_def
  set_state_def now_of_def timers_of_def tickers_of_def
  addTimer_def removeTimer_def removeTicker_def remove_loop.simps Let_def
  Time_Add_def Time_addSec_def Time_Before_def Time_Unix_def unixToInternal_def
  wrap64_def go_quot_def go_rem_def valid_time_def maxInt64_def minInt64_def baseTime_def

lemmas eval_defs = eval_defs0 ticker_update_def ticker_forward.simps

subsection \<open>The package's tests\<close>

text \<open>
  The tests that come with the package, from their base time: each lemma is the
  sequence of calls of one test (a receive where the test receives), with the values the
  test expects. Durations are in nanoseconds.
\<close>

lemma test_NowAlwaysReturnsTime:
  "Clock_Now (projr (New baseTime)) = Inr (baseTime, projr (New baseTime))"
  by (simp add: New_def eval_defs)

lemma test_NowAdvancesByStep:
  "fst (projr (Clock_Now (projr (NewWithStep baseTime 60000000000)))) = baseTime \<and>
   fst (projr (Clock_Now (snd (projr (Clock_Now (projr (NewWithStep baseTime 60000000000))))))) =
     Time_Add baseTime 60000000000"
  by (simp add: eval_defs)

lemma test_PeekDoesNotAdvanceNow:
  "Clock_Peek (projr (NewWithStep baseTime 60000000000)) = Inr (baseTime, projr (NewWithStep baseTime 60000000000)) \<and>
   fst (projr (Clock_Now (projr (NewWithStep baseTime 60000000000)))) = baseTime"
  by (simp add: eval_defs)

lemma test_ExactAddFiresTimer:
  "timer_c (timer_mem (projr (run_from baseTime 0 [OpNewTimer 50000000, OpAdd 50000000])) 0) =
     Some (Time_Add baseTime 50000000)"
  by (simp add: eval_defs)

lemma test_MultipleAddsOnlyFiresAtEnd:
  "timer_c (timer_mem (projr (run_from baseTime 0 [OpNewTimer 50000000, OpAdd 24000000])) 0) = None \<and>
   timer_c (timer_mem (projr (run_from baseTime 0 [OpNewTimer 50000000, OpAdd 24000000, OpAdd 26000000])) 0) =
     Some (Time_Add baseTime 50000000)"
  by (simp add: eval_defs)

lemma test_DoesNotFireAfterExpire:
  "timer_c (timer_mem (projr (run_from baseTime 0
     [OpNewTimer 50000000, OpAdd 50000000, OpTimerRecv 0, OpAdd 50000000])) 0) = None"
  by (simp add: eval_defs)

lemma test_StopPreventsFiring:
  "timer_c (timer_mem (projr (run_from baseTime 0
     [OpNewTimer 50000000, OpStop 0, OpAdd 50000000])) 0) = None"
  by (simp add: eval_defs)

lemma test_ResetFiresAtDifferentTime:
  "timer_c (timer_mem (projr (run_from baseTime 0
     [OpNewTimer 50000000, OpAdd 5000000, OpReset 0 1000000000, OpAdd 45000000])) 0) = None \<and>
   timer_c (timer_mem (projr (run_from baseTime 0
     [OpNewTimer 50000000, OpAdd 5000000, OpReset 0 1000000000, OpAdd 45000000,
      OpAdd 955000000])) 0) = Some (Time_Add baseTime 1005000000)"
  by (simp add: eval_defs)

lemma test_ResetAfterExpiryFiresAgain:
  "timer_c (timer_mem (projr (run_from baseTime 0
     [OpNewTimer 50000000, OpAdd 60000000, OpTimerRecv 0, OpAdd 5000000, OpReset 0 50000000,
      OpAdd 40000000])) 0) = None \<and>
   timer_c (timer_mem (projr (run_from baseTime 0
     [OpNewTimer 50000000, OpAdd 60000000, OpTimerRecv 0, OpAdd 5000000, OpReset 0 50000000,
      OpAdd 40000000, OpAdd 20000000])) 0) = Some (Time_Add baseTime 125000000)"
  by (simp add: eval_defs)

lemma test_ZeroFiresImmediately:
  "timer_c (timer_mem (projr (run_from baseTime 0 [OpNewTimer 0])) 0) = Some baseTime \<and>
   timer_c (timer_mem (projr (run_from baseTime 0 [OpNewTimer (- 1000000000)])) 0) = Some baseTime"
  by (simp add: eval_defs)

lemma test_ResetZeroFiresImmediately:
  "timer_c (timer_mem (projr (run_from baseTime 0
     [OpNewTimer 42000000, OpAdd 42000000, OpTimerRecv 0, OpReset 0 0])) 0) = Some (Time_Add baseTime 42000000) \<and>
   timer_c (timer_mem (projr (run_from baseTime 0
     [OpNewTimer 42000000, OpAdd 42000000, OpTimerRecv 0, OpReset 0 (- 1000000000)])) 0) =
     Some (Time_Add baseTime 42000000)"
  by (simp add: eval_defs)

lemma test_TicksEveryPeriod:
  "ticker_c (ticker_mem (projr (run_from baseTime 0 [OpNewTicker 25000000, OpAdd 27000000])) 0) =
     Some (Time_Add baseTime 27000000) \<and>
   ticker_c (ticker_mem (projr (run_from baseTime 0
     [OpNewTicker 25000000, OpAdd 27000000, OpTickerRecv 0, OpAdd 4000000, OpAdd 21000000])) 0) =
     Some (Time_Add baseTime 52000000)"
  by (simp add: eval_defs)

lemma test_TickerStops:
  "ticker_c (ticker_mem (projr (run_from baseTime 0
     [OpNewTicker 25000000, OpAdd 27000000, OpTickerRecv 0, OpTickerStop 0,
      OpAdd 4000000, OpAdd 21000000])) 0) = None"
  by (simp add: eval_defs)

lemma test_WatchFunc:
  "watch_calls (projr (run_from baseTime 0 [OpSetWatchFunc (Some 1), OpNewTimer 42000000000])) =
     [(1, 42000000000)] \<and>
   watch_calls (projr (run_from baseTime 0
     [OpNewTimer 1000000000, OpSetWatchFunc (Some 1), OpReset 0 42000000000])) =
     [(1, 42000000000)] \<and>
   watch_calls (projr (run_from baseTime 0 [OpSetWatchFunc (Some 1), OpNewTicker 42000000000])) =
     [(1, 42000000000)] \<and>
   watch_calls (projr (run_from baseTime 0
     [OpNewTicker 42000000000, OpSetWatchFunc (Some 1), OpAdd 42000000000])) =
     [(1, 42000000000)]"
  by (simp add: eval_defs)

subsection \<open>The last second\<close>

text \<open>
  A clock started one second before the last second a \<^verbatim>\<open>time.Time\<close> can hold, with a
  ticker of one second: the ticker is due at the start of the last second, \<^verbatim>\<open>Add\<close> of one
  second brings the time there, and the ticker's loop adds its period to an instant that
  \<^verbatim>\<open>Time.Add\<close> can no longer move, so the call does not return.
\<close>

lemma last_second_ticker_loops:
  "run_from (Time_Unix 9223371974719179006 0) 0 [OpNewTicker 1000000000, OpAdd 1000000000] =
     Inl Nontermination"
proof -
  have u: "ticker_update
      \<lparr>ticker_c = None, ticker_d = 1000000000,
        ticker_next = \<lparr>time_ext = 9223372036854775807, time_nsec = 0\<rparr>\<rparr>
      \<lparr>time_ext = 9223372036854775807, time_nsec = 0\<rparr> = None"
    by (rule ticker_update_diverges)
      (simp_all add: Time_Add_def Time_addSec_def Time_Before_def wrap64_def go_quot_def
         go_rem_def maxInt64_def Let_def)
  show ?thesis by (simp add: eval_defs0 u)
qed

section \<open>The claims\<close>

text \<open>
  C1, as the code has it: in every state a run can reach, \<^verbatim>\<open>NewTimer(d)\<close> with a duration
  \<open>d > 0\<close> returns a timer, and every sequence of \<^verbatim>\<open>Add\<close> calls with legal arguments that
  follows and stays before the last second a \<^verbatim>\<open>time.Time\<close> can hold returns. While the
  total advanced is below \<open>d\<close> the timer's channel holds nothing. Once the total has
  reached \<open>d\<close> the channel holds exactly one value: the time the clock showed at the end
  of the first call with which the total reached \<open>d\<close>, that is the creation time plus the
  total advanced up to and including that call. That value is at least the creation time
  plus \<open>d\<close>, and equals it only when the total met \<open>d\<close> exactly.
\<close>

theorem C1_timer_fires_with_current_time:
  assumes "run_from start step ops = Inr w" and "0 < d" and "d \<le> maxInt64"
    and "\<forall>x\<in>set ds. 0 \<le> x"
    and "instant (now_of w) + sum_list ds < last_second"
  shows "\<exists>p w1 w2. Clock_NewTimer d w = Inr (p, w1) \<and>
           run (map OpAdd ds) w1 = Inr w2 \<and>
           timer_c (timer_mem w2 p) =
             (if sum_list ds < d then None else Some (Time_Add (now_of w) (crossing d ds))) \<and>
           (\<not> sum_list ds < d \<longrightarrow>
              instant (Time_Add (now_of w) (crossing d ds)) = instant (now_of w) + crossing d ds \<and>
              d \<le> crossing d ds \<and> crossing d ds \<le> sum_list ds)"
proof -
  have wf: "wellformed w" using assms(1) by (rule run_from_wellformed)
  have v: "valid_time (now_of w)" using wf by (rule wellformed_now)
  let ?p = "timer_top w"
  let ?w1 = "call_watch (clock_watch (clk w)) [d]
     (w\<lparr>timer_mem := (timer_mem w)
           (?p := \<lparr>timer_c = None, timer_time = Time_Add (now_of w) d, timer_fired = False\<rparr>),
        timer_top := Suc ?p,
        clk := (clk w)\<lparr>clock_state := (clock_state (clk w))
                 \<lparr>state_timers := timers_of w @ [Some ?p]\<rparr>\<rparr>\<rparr>)"
  have new: "Clock_NewTimer d w = Inr (?p, ?w1)"
    using assms(2) by (simp add: Clock_NewTimer_eq)
  have wf1: "wellformed ?w1" using wf new by (rule Clock_NewTimer_preserves)
  have reg: "Some ?p \<in> set (timers_of ?w1)"
    by (simp add: call_watch_simps) (simp add: timers_of_def)
  have c: "timer_c (timer_mem ?w1 ?p) = None" by (simp add: call_watch_simps)
  have n: "now_of ?w1 = now_of w" by (simp add: call_watch_simps) (simp add: now_of_def)
  have t: "timer_time (timer_mem ?w1 ?p) = Time_Add (now_of w) d" by (simp add: call_watch_simps)
  have tm: "instant (timer_time (timer_mem ?w1 ?p)) = instant (now_of ?w1) + d \<or>
      time_ext (timer_time (timer_mem ?w1 ?p)) = maxInt64 \<and> last_second \<le> instant (now_of ?w1) + d"
    unfolding n t using Time_Add_sat [OF v _ assms(3)] assms(2) by simp
  have rng: "instant (now_of ?w1) + sum_list ds < last_second" unfolding n by (rule assms(5))
  from pending_timer_advances [OF wf1 reg c assms(2) tm assms(4) rng]
  obtain w2 where w2: "run (map OpAdd ds) ?w1 = Inr w2"
    "timer_c (timer_mem w2 ?p) =
       (if sum_list ds < d then None else Some (Time_Add (now_of ?w1) (crossing d ds)))"
    by blast
  have b: "\<not> sum_list ds < d \<longrightarrow>
      instant (Time_Add (now_of w) (crossing d ds)) = instant (now_of w) + crossing d ds \<and>
      d \<le> crossing d ds \<and> crossing d ds \<le> sum_list ds"
  proof
    assume "\<not> sum_list ds < d"
    then have cb: "d \<le> crossing d ds \<and> crossing d ds \<le> sum_list ds"
      using crossing_bounds [OF assms(4) _ assms(2)] by simp
    then have "instant (now_of w) + crossing d ds < last_second" using assms(5) by simp
    moreover have "0 \<le> crossing d ds" using cb assms(2) by simp
    ultimately have "instant (Time_Add (now_of w) (crossing d ds)) = instant (now_of w) + crossing d ds"
      using v by (intro Time_Add_exact) simp_all
    then show "instant (Time_Add (now_of w) (crossing d ds)) = instant (now_of w) + crossing d ds \<and>
      d \<le> crossing d ds \<and> crossing d ds \<le> sum_list ds" using cb by simp
  qed
  show ?thesis
    using new w2 b unfolding n by blast
qed

theorem C1_timer_fires_with_current_time_witness:
  "run_from baseTime 0 [] = Inr (projr (run_from baseTime 0 [])) \<and> (0::int) < 50 \<and>
   (50::int) \<le> maxInt64 \<and>
   list_all (\<lambda>x. (0::int) \<le> x) [20, 40, 5] \<and>
   instant (now_of (projr (run_from baseTime 0 []))) + sum_list [20, 40, 5] < last_second \<and>
   (\<exists>p w1 w2. Clock_NewTimer 50 (projr (run_from baseTime 0 [])) = Inr (p, w1) \<and>
      run (map OpAdd [20]) w1 = Inr w2 \<and> timer_c (timer_mem w2 p) = None) \<and>
   (\<exists>p w1 w2. Clock_NewTimer 50 (projr (run_from baseTime 0 [])) = Inr (p, w1) \<and>
      run (map OpAdd [20, 30, 5]) w1 = Inr w2 \<and>
      timer_c (timer_mem w2 p) = Some (Time_Add baseTime 50)) \<and>
   (\<exists>p w1 w2. Clock_NewTimer 50 (projr (run_from baseTime 0 [])) = Inr (p, w1) \<and>
      run (map OpAdd [20, 40, 5]) w1 = Inr w2 \<and>
      timer_c (timer_mem w2 p) = Some (Time_Add baseTime 60))"
proof -
  let ?W = "projr (run_from baseTime 0 [])"
  have r: "run_from baseTime 0 [] = Inr ?W" by (simp add: eval_defs)
  have n: "now_of ?W = baseTime" by (simp add: eval_defs)
  have d: "(0::int) < 50" "(50::int) \<le> maxInt64" by (simp_all add: maxInt64_def)
  have a: "\<forall>x\<in>set [20::int]. 0 \<le> x" and b: "\<forall>x\<in>set [20::int, 30, 5]. 0 \<le> x"
    and c: "\<forall>x\<in>set [20::int, 40, 5]. 0 \<le> x"
    by simp_all
  have ra: "instant (now_of ?W) + sum_list [20] < last_second"
    and rb: "instant (now_of ?W) + sum_list [20, 30, 5] < last_second"
    and rc: "instant (now_of ?W) + sum_list [20, 40, 5] < last_second"
    unfolding n by (simp_all add: instant_def last_second_def eval_defs)
  from C1_timer_fires_with_current_time [OF r d a ra]
    C1_timer_fires_with_current_time [OF r d b rb]
    C1_timer_fires_with_current_time [OF r d c rc]
  show ?thesis
    unfolding n using r d rc n by simp blast
qed

text \<open>
  C1 in the wording of the specification fails: a timer of 50 ns created at the tests' base time
  and advanced by 60 ns holds the base time plus 60 ns, not plus 50 ns.
\<close>

theorem C1_counterexample:
  "run_from baseTime 0 [OpNewTimer 50, OpAdd 60] =
     Inr (projr (run_from baseTime 0 [OpNewTimer 50, OpAdd 60])) \<and>
   timer_c (timer_mem (projr (run_from baseTime 0 [OpNewTimer 50, OpAdd 60])) 0) =
     Some (Time_Add baseTime 60) \<and>
   instant (Time_Add baseTime 60) = instant baseTime + 60 \<and>
   instant (Time_Add baseTime 50) = instant baseTime + 50 \<and>
   timer_c (timer_mem (projr (run_from baseTime 0 [OpNewTimer 50, OpAdd 60])) 0) \<noteq>
     Some (Time_Add baseTime 50)"
  by (simp add: eval_defs instant_def)

text \<open>
  C2, as the code has it: in every state a run can reach, take a pending ticker and an
  \<^verbatim>\<open>Add(delta)\<close> that brings the time to or past the ticker's next instant (one period or
  several) and stays before the last second a \<^verbatim>\<open>time.Time\<close> can hold. The call returns,
  and it leaves the ticker as one call of \<^verbatim>\<open>ticker.update\<close> at the new time leaves it:
  one send of the new time on its channel, which stores the value when the slot is free
  and drops it when the slot still holds an earlier value, so that the channel holds
  exactly one value afterwards; the period added to the next instant a positive number
  of times, up to the first result that is strictly later than the new time. While one
  more period also stays before the last second, that is the old next instant plus the
  least number of periods that passes the new time. The ticker stays pending and its
  period is positive.
\<close>

theorem C2_ticker_coalesces:
  assumes "run_from start step ops = Inr w"
    and "Some k \<in> set (tickers_of w)"
    and "0 \<le> delta"
    and "\<not> Time_Before (Time_Add (now_of w) delta) (ticker_next (ticker_mem w k))"
    and "instant (now_of w) + delta < last_second"
  shows "\<exists>w'. Clock_Add delta w = Inr ((), w') \<and>
           now_of w' = Time_Add (now_of w) delta \<and>
           instant (now_of w') = instant (now_of w) + delta \<and>
           0 < ticker_d (ticker_mem w k) \<and>
           ticker_update (ticker_mem w k) (now_of w') =
             Some (ticker_mem w' k, ticker_d (ticker_mem w k)) \<and>
           ticker_c (ticker_mem w' k) = chan_send (ticker_c (ticker_mem w k)) (now_of w') \<and>
           ticker_c (ticker_mem w' k) =
             (case ticker_c (ticker_mem w k) of None \<Rightarrow> Some (now_of w') | Some v \<Rightarrow> Some v) \<and>
           Time_Before (now_of w') (ticker_next (ticker_mem w' k)) \<and>
           (\<exists>n>0. ticker_next (ticker_mem w' k) =
                     ((\<lambda>t. Time_Add t (ticker_d (ticker_mem w k))) ^^ n)
                       (ticker_next (ticker_mem w k)) \<and>
                   (\<forall>j<n. \<not> Time_Before (now_of w')
                      (((\<lambda>t. Time_Add t (ticker_d (ticker_mem w k))) ^^ j)
                         (ticker_next (ticker_mem w k))))) \<and>
           (instant (now_of w) + delta + ticker_d (ticker_mem w k) < last_second \<longrightarrow>
              instant (ticker_next (ticker_mem w' k)) =
                instant (ticker_next (ticker_mem w k)) +
                ((instant (now_of w') - instant (ticker_next (ticker_mem w k)))
                   div ticker_d (ticker_mem w k) + 1) * ticker_d (ticker_mem w k)) \<and>
           ticker_d (ticker_mem w' k) = ticker_d (ticker_mem w k) \<and>
           Some k \<in> set (tickers_of w')"
proof -
  have wf: "wellformed w" using assms(1) by (rule run_from_wellformed)
  have v: "valid_time (now_of w)" using wf by (rule wellformed_now)
  let ?tk = "ticker_mem w k" and ?now = "Time_Add (now_of w) delta"
  have k: "0 < ticker_d ?tk" "valid_time (ticker_next ?tk)"
    using wellformed_tickerD [OF wf assms(2)] by simp_all
  have i: "instant ?now = instant (now_of w) + delta" using v assms(3,5) by (rule Time_Add_exact)
  have v': "valid_time ?now" using v assms(3) by (rule valid_time_Add)
  have e': "early ?now" using v' i assms(5) by (simp add: early_instant)
  have e: "early (now_of w)" using v assms(3) e' by (rule early_Time_Add)
  have "pending_inv w" using assms(1) e by (rule run_from_pending_inv)
  then have "Time_Before (now_of w) (ticker_next ?tk)" using assms(2) by (rule pending_inv_tickerD)
  then have ne: "?now \<noteq> now_of w" using assms(4) by auto
  let ?w = "advanced delta w"
  have add: "Clock_Add delta w = Inr ((), ?w)" using wf assms(3) e' by (rule Clock_Add_early)
  have due: "due_ticker w ?now k" using assms(2,4) by (simp add: due_ticker_def)
  have mem: "ticker_mem ?w k = ticker_after ?tk ?now" using due ne by (simp add: advanced_simps)
  have n: "now_of ?w = ?now" by (simp add: advanced_simps)
  have ret: "ticker_update ?tk ?now \<noteq> None" using v' e' k by (rule ticker_update_returns)
  have upd: "ticker_update ?tk ?now = Some (ticker_after ?tk ?now, ticker_d ?tk)"
    using assms(4) ret by (rule ticker_update_due)
  note a = ticker_after_due [OF assms(4) ret]
  have ch: "ticker_c (ticker_after ?tk ?now) =
      (case ticker_c ?tk of None \<Rightarrow> Some ?now | Some v \<Rightarrow> Some v)"
    unfolding a(1) by (simp add: chan_send_def)
  have ex: "instant (now_of w) + delta + ticker_d ?tk < last_second \<longrightarrow>
      instant (ticker_next (ticker_after ?tk ?now)) =
        instant (ticker_next ?tk) +
        ((instant ?now - instant (ticker_next ?tk)) div ticker_d ?tk + 1) * ticker_d ?tk"
    using ticker_after_exact(3) [OF v' k(2,1) assms(4)] i by simp
  have reg: "Some k \<in> set (tickers_of ?w)" using assms(2) by (simp add: advanced_simps)
  show ?thesis
    apply (rule exI [of _ ?w])
    unfolding n mem
    using add n i k(1) upd a ch ex reg by simp
qed

theorem C2_ticker_coalesces_witness:
  "run_from baseTime 0 [OpNewTicker 25] = Inr (projr (run_from baseTime 0 [OpNewTicker 25])) \<and>
   Some 0 \<in> set (tickers_of (projr (run_from baseTime 0 [OpNewTicker 25]))) \<and>
   ticker_mem (projr (run_from baseTime 0 [OpNewTicker 25])) 0 =
     \<lparr>ticker_c = None, ticker_d = 25, ticker_next = Time_Add baseTime 25\<rparr> \<and>
   (\<exists>w'. Clock_Add 25 (projr (run_from baseTime 0 [OpNewTicker 25])) = Inr ((), w') \<and>
         ticker_mem w' 0 = \<lparr>ticker_c = Some (Time_Add baseTime 25), ticker_d = 25,
                              ticker_next = Time_Add baseTime 50\<rparr>) \<and>
   (\<exists>w'. Clock_Add 75 (projr (run_from baseTime 0 [OpNewTicker 25])) = Inr ((), w') \<and>
         ticker_mem w' 0 = \<lparr>ticker_c = Some (Time_Add baseTime 75), ticker_d = 25,
                              ticker_next = Time_Add baseTime 100\<rparr>)"
proof -
  let ?W = "projr (run_from baseTime 0 [OpNewTicker 25])"
  have r: "run_from baseTime 0 [OpNewTicker 25] = Inr ?W" by (simp add: eval_defs)
  have k: "Some 0 \<in> set (tickers_of ?W)" by (simp add: eval_defs)
  have m: "ticker_mem ?W 0 = \<lparr>ticker_c = None, ticker_d = 25, ticker_next = Time_Add baseTime 25\<rparr>"
    by (simp add: eval_defs)
  have n: "now_of ?W = baseTime" by (simp add: eval_defs)
  have p: "(0::int) \<le> 25" "(0::int) \<le> 75" by simp_all
  have a: "\<not> Time_Before (Time_Add (now_of ?W) 25) (ticker_next (ticker_mem ?W 0))"
    and b: "\<not> Time_Before (Time_Add (now_of ?W) 75) (ticker_next (ticker_mem ?W 0))"
    unfolding m n by (simp_all add: eval_defs)
  have ra: "instant (now_of ?W) + 25 < last_second"
    and rb: "instant (now_of ?W) + 75 < last_second"
    unfolding n by (simp_all add: instant_def last_second_def eval_defs)
  have u: "ticker_update \<lparr>ticker_c = None, ticker_d = 25, ticker_next = Time_Add baseTime 25\<rparr>
             (Time_Add baseTime 25) =
             Some (\<lparr>ticker_c = Some (Time_Add baseTime 25), ticker_d = 25,
                    ticker_next = Time_Add baseTime 50\<rparr>, 25)"
    "ticker_update \<lparr>ticker_c = None, ticker_d = 25, ticker_next = Time_Add baseTime 25\<rparr>
             (Time_Add baseTime 75) =
             Some (\<lparr>ticker_c = Some (Time_Add baseTime 75), ticker_d = 25,
                    ticker_next = Time_Add baseTime 100\<rparr>, 25)"
    by (simp_all add: eval_defs)
  from C2_ticker_coalesces [OF r k p(1) a ra] obtain w1 where
    w1: "Clock_Add 25 ?W = Inr ((), w1)"
      "ticker_update (ticker_mem ?W 0) (now_of w1) = Some (ticker_mem w1 0, ticker_d (ticker_mem ?W 0))"
      "now_of w1 = Time_Add (now_of ?W) 25"
    by blast
  from C2_ticker_coalesces [OF r k p(2) b rb] obtain w2 where
    w2: "Clock_Add 75 ?W = Inr ((), w2)"
      "ticker_update (ticker_mem ?W 0) (now_of w2) = Some (ticker_mem w2 0, ticker_d (ticker_mem ?W 0))"
      "now_of w2 = Time_Add (now_of ?W) 75"
    by blast
  have "ticker_mem w1 0 = \<lparr>ticker_c = Some (Time_Add baseTime 25), ticker_d = 25,
                              ticker_next = Time_Add baseTime 50\<rparr>"
    using w1(2) unfolding w1(3) m n by (simp add: u)
  moreover have "ticker_mem w2 0 = \<lparr>ticker_c = Some (Time_Add baseTime 75), ticker_d = 25,
                              ticker_next = Time_Add baseTime 100\<rparr>"
    using w2(2) unfolding w2(3) m n by (simp add: u)
  ultimately show ?thesis using r k m w1(1) w2(1) by blast
qed

text \<open>
  C2 in the wording of the specification fails: a ticker of 25 ns whose first tick has not been
  received is advanced by 60 ns, over two more of its instants, and the call puts
  nothing on the channel, which still holds the first tick.
\<close>

theorem C2_counterexample:
  "run_from baseTime 0 [OpNewTicker 25, OpAdd 25] =
     Inr (projr (run_from baseTime 0 [OpNewTicker 25, OpAdd 25])) \<and>
   ticker_mem (projr (run_from baseTime 0 [OpNewTicker 25, OpAdd 25])) 0 =
     \<lparr>ticker_c = Some (Time_Add baseTime 25), ticker_d = 25, ticker_next = Time_Add baseTime 50\<rparr> \<and>
   Clock_Add 60 (projr (run_from baseTime 0 [OpNewTicker 25, OpAdd 25])) =
     Inr ((), projr (run_from baseTime 0 [OpNewTicker 25, OpAdd 25, OpAdd 60])) \<and>
   now_of (projr (run_from baseTime 0 [OpNewTicker 25, OpAdd 25, OpAdd 60])) =
     Time_Add baseTime 85 \<and>
   ticker_mem (projr (run_from baseTime 0 [OpNewTicker 25, OpAdd 25, OpAdd 60])) 0 =
     \<lparr>ticker_c = Some (Time_Add baseTime 25), ticker_d = 25, ticker_next = Time_Add baseTime 100\<rparr> \<and>
   ticker_c (ticker_mem (projr (run_from baseTime 0 [OpNewTicker 25, OpAdd 25, OpAdd 60])) 0) \<noteq>
     Some (Time_Add baseTime 85)"
  by (simp add: eval_defs)

text \<open>
  C3, as the code has it: in every state a run can reach, \<^verbatim>\<open>Peek\<close> returns the current
  time and leaves the whole world as it was (so a second \<^verbatim>\<open>Peek\<close> returns the same
  value). For every \<open>delta \<ge> 0\<close>, whenever \<^verbatim>\<open>Add(delta)\<close> returns, \<^verbatim>\<open>Peek\<close> after it
  returns what \<^verbatim>\<open>Time.Add\<close> makes of the earlier value and \<open>delta\<close>, again without
  changing anything. While the earlier value plus \<open>delta\<close> is before the last second a
  \<^verbatim>\<open>time.Time\<close> can hold, \<^verbatim>\<open>Add(delta)\<close> does return and that value is the earlier one plus
  \<open>delta\<close>.
\<close>

theorem C3_peek_after_advance:
  assumes "run_from start step ops = Inr w" and "0 \<le> delta"
  shows "Clock_Peek w = Inr (now_of w, w) \<and>
         (\<forall>w1. Clock_Add delta w = Inr ((), w1) \<longrightarrow>
               Clock_Peek w1 = Inr (Time_Add (now_of w) delta, w1)) \<and>
         (instant (now_of w) + delta < last_second \<longrightarrow>
            (\<exists>w1. Clock_Add delta w = Inr ((), w1) \<and>
                  Clock_Peek w1 = Inr (Time_Add (now_of w) delta, w1) \<and>
                  instant (Time_Add (now_of w) delta) = instant (now_of w) + delta))"
proof -
  have wf: "wellformed w" using assms(1) by (rule run_from_wellformed)
  have v: "valid_time (now_of w)" using wf by (rule wellformed_now)
  have p: "Clock_Peek (advanced delta w) = Inr (Time_Add (now_of w) delta, advanced delta w)"
    by (simp add: Clock_Peek_eq advanced_simps)
  have a: "\<forall>w1. Clock_Add delta w = Inr ((), w1) \<longrightarrow>
               Clock_Peek w1 = Inr (Time_Add (now_of w) delta, w1)"
    using p by (auto simp: Clock_Add_advanced [OF wf assms(2)] split: if_splits)
  have b: "instant (now_of w) + delta < last_second \<longrightarrow>
            (\<exists>w1. Clock_Add delta w = Inr ((), w1) \<and>
                  Clock_Peek w1 = Inr (Time_Add (now_of w) delta, w1) \<and>
                  instant (Time_Add (now_of w) delta) = instant (now_of w) + delta)"
  proof
    assume r: "instant (now_of w) + delta < last_second"
    have i: "instant (Time_Add (now_of w) delta) = instant (now_of w) + delta"
      using v assms(2) r by (rule Time_Add_exact)
    have "valid_time (Time_Add (now_of w) delta)" using v assms(2) by (rule valid_time_Add)
    then have "early (Time_Add (now_of w) delta)" using i r by (simp add: early_instant)
    then have "Clock_Add delta w = Inr ((), advanced delta w)"
      using wf assms(2) by (intro Clock_Add_early)
    then show "\<exists>w1. Clock_Add delta w = Inr ((), w1) \<and>
                  Clock_Peek w1 = Inr (Time_Add (now_of w) delta, w1) \<and>
                  instant (Time_Add (now_of w) delta) = instant (now_of w) + delta"
      using p i by blast
  qed
  show ?thesis using a b by (simp add: Clock_Peek_eq)
qed

theorem C3_peek_after_advance_witness:
  "run_from baseTime 0 [OpNewTimer 50, OpNewTicker 25] =
     Inr (projr (run_from baseTime 0 [OpNewTimer 50, OpNewTicker 25])) \<and>
   (0::int) \<le> 60 \<and>
   instant (now_of (projr (run_from baseTime 0 [OpNewTimer 50, OpNewTicker 25]))) + 60 < last_second \<and>
   Clock_Peek (projr (run_from baseTime 0 [OpNewTimer 50, OpNewTicker 25])) =
     Inr (baseTime, projr (run_from baseTime 0 [OpNewTimer 50, OpNewTicker 25])) \<and>
   (\<exists>w1. Clock_Add 60 (projr (run_from baseTime 0 [OpNewTimer 50, OpNewTicker 25])) = Inr ((), w1) \<and>
         Clock_Peek w1 = Inr (Time_Add baseTime 60, w1) \<and>
         instant (Time_Add baseTime 60) = instant baseTime + 60)"
proof -
  have r: "run_from baseTime 0 [OpNewTimer 50, OpNewTicker 25] =
     Inr (projr (run_from baseTime 0 [OpNewTimer 50, OpNewTicker 25]))"
    by (simp add: eval_defs)
  have n: "now_of (projr (run_from baseTime 0 [OpNewTimer 50, OpNewTicker 25])) = baseTime"
    by (simp add: eval_defs)
  have i: "instant baseTime + 60 < last_second"
    by (simp add: instant_def last_second_def eval_defs)
  show ?thesis
    using r i C3_peek_after_advance [OF r, of 60] unfolding n by simp
qed

text \<open>
  C3 in the wording of the specification fails: on a clock started one second before the last
  second, \<^verbatim>\<open>Peek\<close>, \<^verbatim>\<open>Add\<close> of two seconds, \<^verbatim>\<open>Peek\<close> returns the start and the start plus
  one second.
\<close>

theorem C3_counterexample:
  "run_from (Time_Unix 9223371974719179006 0) 0 [] =
     Inr (projr (run_from (Time_Unix 9223371974719179006 0) 0 [])) \<and>
   fst (projr (Clock_Peek (projr (run_from (Time_Unix 9223371974719179006 0) 0 [])))) =
     Time_Unix 9223371974719179006 0 \<and>
   Clock_Add 2000000000 (projr (run_from (Time_Unix 9223371974719179006 0) 0 [])) =
     Inr ((), projr (run_from (Time_Unix 9223371974719179006 0) 0 [OpAdd 2000000000])) \<and>
   instant (fst (projr (Clock_Peek
      (projr (run_from (Time_Unix 9223371974719179006 0) 0 [OpAdd 2000000000]))))) =
     instant (Time_Unix 9223371974719179006 0) + 1000000000 \<and>
   instant (fst (projr (Clock_Peek
      (projr (run_from (Time_Unix 9223371974719179006 0) 0 [OpAdd 2000000000]))))) \<noteq>
     instant (Time_Unix 9223371974719179006 0) + 2000000000"
  by (simp add: eval_defs instant_def)



text \<open>
  C5: in every state a run can reach and for every allocated timer, \<^verbatim>\<open>Stop\<close> returns;
  its result is true exactly when the timer had not fired, which is exactly when it was
  pending; afterwards the timer is marked fired and is not pending, the time has not
  moved, and the channel holds what it held before. Whatever sequence of \<^verbatim>\<open>Add\<close> (with
  legal arguments) and \<^verbatim>\<open>Now\<close> calls follows, when it returns it has left the timer,
  channel included, as \<^verbatim>\<open>Stop\<close> left it; and it does return while the time it asks for
  is before the last second a \<^verbatim>\<open>time.Time\<close> can hold.
\<close>

theorem C5_stop:
  assumes "run_from start step ops = Inr w" and "p < timer_top w"
  shows "\<exists>b w'. timer_Stop p w = Inr (b, w') \<and>
           b = (\<not> timer_fired (timer_mem w p)) \<and>
           b = (Some p \<in> set (timers_of w)) \<and>
           timer_fired (timer_mem w' p) \<and>
           Some p \<notin> set (timers_of w') \<and>
           timers_of w' = remove1 (Some p) (timers_of w) \<and>
           now_of w' = now_of w \<and>
           timer_c (timer_mem w' p) = timer_c (timer_mem w p) \<and>
           (\<forall>xs w2. list_all is_advance xs \<longrightarrow> run xs w' = Inr w2 \<longrightarrow>
              timer_mem w2 p = timer_mem w' p \<and> Some p \<notin> set (timers_of w2)) \<and>
           (\<forall>xs. list_all is_advance xs \<longrightarrow>
              instant (now_of w') + advance_total (clock_step (clk w')) xs < last_second \<longrightarrow>
              (\<exists>w2. run xs w' = Inr w2 \<and> timer_mem w2 p = timer_mem w' p))"
proof -
  have wf: "wellformed w" using assms(1) by (rule run_from_wellformed)
  have reg: "(Some p \<in> set (timers_of w)) = (\<not> timer_fired (timer_mem w p))"
    using wf assms(2) by (simp add: wellformed_def)
  have d: "distinct (timers_of w)" using wellformed_distinct [OF wf] by simp
  let ?w = "w\<lparr>clk := (clk w)\<lparr>clock_state := (clock_state (clk w))
                 \<lparr>state_timers := remove1 (Some p) (timers_of w)\<rparr>\<rparr>,
            timer_mem := (timer_mem w)(p := (timer_mem w p)\<lparr>timer_fired := True\<rparr>)\<rparr>"
  have stop: "timer_Stop p w = Inr (\<not> timer_fired (timer_mem w p), ?w)"
    using wf by (rule timer_Stop_wellformed)
  have wf': "wellformed ?w" using wf stop by (rule timer_Stop_preserves)
  have ts: "timers_of ?w = remove1 (Some p) (timers_of w)" by (simp add: timers_of_def)
  have nr: "Some p \<notin> set (timers_of ?w)" using d by (simp add: ts)
  have later: "\<forall>xs w2. list_all is_advance xs \<longrightarrow> run xs ?w = Inr w2 \<longrightarrow>
              timer_mem w2 p = timer_mem ?w p \<and> Some p \<notin> set (timers_of w2)"
    using advances_keep_unregistered [OF wf' nr] by blast
  have ret: "\<forall>xs. list_all is_advance xs \<longrightarrow>
              instant (now_of ?w) + advance_total (clock_step (clk ?w)) xs < last_second \<longrightarrow>
              (\<exists>w2. run xs ?w = Inr w2 \<and> timer_mem w2 p = timer_mem ?w p)"
  proof (intro allI impI)
    fix xs assume a: "list_all is_advance xs"
      "instant (now_of ?w) + advance_total (clock_step (clk ?w)) xs < last_second"
    from run_advances_return [OF wf' a] obtain w2 where w2: "run xs ?w = Inr w2" by blast
    then show "\<exists>w2. run xs ?w = Inr w2 \<and> timer_mem w2 p = timer_mem ?w p"
      using later a(1) by blast
  qed
  have rest: "timer_fired (timer_mem ?w p)" "now_of ?w = now_of w"
    "timer_c (timer_mem ?w p) = timer_c (timer_mem w p)"
    by (simp_all add: now_of_def)
  show ?thesis
    apply (rule exI [of _ "\<not> timer_fired (timer_mem w p)"])
    apply (rule exI [of _ ?w])
    apply (intro conjI)
    apply (rule stop)
    apply (rule refl)
    apply (simp add: reg)
    apply (rule rest(1))
    apply (rule nr)
    apply (rule ts)
    apply (rule rest(2))
    apply (rule rest(3))
    apply (rule later)
    apply (rule ret)
    done
qed

theorem C5_stop_witness:
  "run_from baseTime 0 [OpNewTimer 50, OpNewTimer 20, OpAdd 30] =
     Inr (projr (run_from baseTime 0 [OpNewTimer 50, OpNewTimer 20, OpAdd 30])) \<and>
   (0::nat) < timer_top (projr (run_from baseTime 0 [OpNewTimer 50, OpNewTimer 20, OpAdd 30])) \<and>
   (1::nat) < timer_top (projr (run_from baseTime 0 [OpNewTimer 50, OpNewTimer 20, OpAdd 30])) \<and>
   (\<exists>w'. timer_Stop 0 (projr (run_from baseTime 0 [OpNewTimer 50, OpNewTimer 20, OpAdd 30])) =
             Inr (True, w') \<and>
          timer_mem w' 0 = \<lparr>timer_c = None, timer_time = Time_Add baseTime 50,
                             timer_fired = True\<rparr> \<and>
          timers_of w' = [] \<and>
          (\<exists>w2. run [OpAdd 100, OpNow] w' = Inr w2 \<and> timer_c (timer_mem w2 0) = None)) \<and>
   (\<exists>w'. timer_Stop 1 (projr (run_from baseTime 0 [OpNewTimer 50, OpNewTimer 20, OpAdd 30])) =
             Inr (False, w') \<and>
          timer_mem w' 1 = \<lparr>timer_c = Some (Time_Add baseTime 30),
                             timer_time = Time_Add baseTime 20, timer_fired = True\<rparr> \<and>
          timers_of w' = [Some 0])"
proof -
  let ?W = "projr (run_from baseTime 0 [OpNewTimer 50, OpNewTimer 20, OpAdd 30])"
  have r: "run_from baseTime 0 [OpNewTimer 50, OpNewTimer 20, OpAdd 30] = Inr ?W"
    by (simp add: eval_defs)
  have t: "0 < timer_top ?W" "1 < timer_top ?W" by (simp_all add: eval_defs)
  have a: "timer_Stop 0 ?W = Inr (True, snd (projr (timer_Stop 0 ?W)))"
    "timer_mem (snd (projr (timer_Stop 0 ?W))) 0 =
       \<lparr>timer_c = None, timer_time = Time_Add baseTime 50, timer_fired = True\<rparr>"
    "timers_of (snd (projr (timer_Stop 0 ?W))) = []"
    by (simp_all add: eval_defs)
  have b: "timer_Stop 1 ?W = Inr (False, snd (projr (timer_Stop 1 ?W)))"
    "timer_mem (snd (projr (timer_Stop 1 ?W))) 1 =
       \<lparr>timer_c = Some (Time_Add baseTime 30), timer_time = Time_Add baseTime 20,
        timer_fired = True\<rparr>"
    "timers_of (snd (projr (timer_Stop 1 ?W))) = [Some 0]"
    by (simp_all add: eval_defs)
  have adv: "list_all is_advance [OpAdd 100, OpNow]" by simp
  have rng: "instant (now_of (snd (projr (timer_Stop 0 ?W)))) +
      advance_total (clock_step (clk (snd (projr (timer_Stop 0 ?W))))) [OpAdd 100, OpNow]
      < last_second"
    by (simp add: eval_defs instant_def last_second_def)
  from C5_stop [OF r t(1)] obtain b0 w0 where
    s0: "timer_Stop 0 ?W = Inr (b0, w0)"
    and l0: "\<forall>xs. list_all is_advance xs \<longrightarrow>
              instant (now_of w0) + advance_total (clock_step (clk w0)) xs < last_second \<longrightarrow>
              (\<exists>w2. run xs w0 = Inr w2 \<and> timer_mem w2 0 = timer_mem w0 0)"
    by blast
  from s0 a(1) have w0: "w0 = snd (projr (timer_Stop 0 ?W))" by simp
  from l0 adv rng obtain w2 where
    "run [OpAdd 100, OpNow] w0 = Inr w2" "timer_mem w2 0 = timer_mem w0 0"
    unfolding w0 by blast
  then have c: "\<exists>w2. run [OpAdd 100, OpNow] (snd (projr (timer_Stop 0 ?W))) = Inr w2 \<and>
       timer_c (timer_mem w2 0) = None"
    using a(2) unfolding w0 by auto
  from r t a b c show ?thesis by blast
qed

lemma call_watch_calls:
  "watch_calls (call_watch cb args w) =
     watch_calls w @ (case cb of None \<Rightarrow> [] | Some g \<Rightarrow> map (Pair g) args)"
  by (cases cb) (simp_all add: call_watch_def)

text \<open>
  C6: in every state a run can reach and for every duration \<open>d\<close>, \<^verbatim>\<open>NewTimer(d)\<close> returns
  a new timer, and the watch callback, when one is set, has been called exactly once
  more, with \<open>d\<close>, and not at all when none is set. When \<open>d \<le> 0\<close> the new timer's channel
  holds the current time, the timer is marked fired, and the pending slice is as it was,
  without the new timer.
\<close>

theorem C6_new_timer_immediate:
  assumes "run_from start step ops = Inr w"
  shows "\<exists>p w'. Clock_NewTimer d w = Inr (p, w') \<and> p = timer_top w \<and>
           watch_calls w' =
             watch_calls w @ (case clock_watch (clk w) of None \<Rightarrow> [] | Some g \<Rightarrow> [(g, d)]) \<and>
           (d \<le> 0 \<longrightarrow>
              timer_c (timer_mem w' p) = Some (now_of w) \<and>
              timer_fired (timer_mem w' p) \<and>
              timers_of w' = timers_of w \<and>
              Some p \<notin> set (timers_of w'))"
proof -
  have wf: "wellformed w" using assms by (rule run_from_wellformed)
  have fresh: "Some (timer_top w) \<notin> set (timers_of w)"
    using wf by (auto dest: wellformed_timerD)
  show ?thesis
    unfolding Clock_NewTimer_eq
    using fresh
    by (cases "clock_watch (clk w)")
       (auto simp: call_watch_calls call_watch_simps timers_of_def)
qed

theorem C6_new_timer_immediate_witness:
  "run_from baseTime 0 [OpSetWatchFunc (Some 7), OpNewTimer 50] =
     Inr (projr (run_from baseTime 0 [OpSetWatchFunc (Some 7), OpNewTimer 50])) \<and>
   (\<exists>p w'. Clock_NewTimer (- 3) (projr (run_from baseTime 0 [OpSetWatchFunc (Some 7), OpNewTimer 50])) =
              Inr (p, w') \<and> p = 1 \<and>
            watch_calls w' = [(7, 50), (7, - 3)] \<and>
            timer_c (timer_mem w' p) = Some baseTime \<and>
            timer_fired (timer_mem w' p) \<and>
            timers_of w' = [Some 0])"
proof -
  let ?W = "projr (run_from baseTime 0 [OpSetWatchFunc (Some 7), OpNewTimer 50])"
  have r: "run_from baseTime 0 [OpSetWatchFunc (Some 7), OpNewTimer 50] = Inr ?W"
    by (simp add: eval_defs)
  have v: "timer_top ?W = 1" "watch_calls ?W = [(7, 50)]" "clock_watch (clk ?W) = Some 7"
    "now_of ?W = baseTime" "timers_of ?W = [Some 0]"
    by (simp_all add: eval_defs)
  show ?thesis
    using r C6_new_timer_immediate [OF r, of "- 3"] unfolding v by auto
qed

text \<open>
  C7: \<^verbatim>\<open>NewWithStep\<close> panics exactly when the step is negative; in every state a run can
  reach, \<^verbatim>\<open>Add\<close> panics exactly when its argument is negative and \<^verbatim>\<open>NewTicker\<close> panics
  exactly when its argument is not positive. The panic is the call's whole outcome (no
  world is returned). With any other argument \<^verbatim>\<open>NewWithStep\<close> and \<^verbatim>\<open>NewTicker\<close> return,
  and \<^verbatim>\<open>Add\<close> does not panic: it returns when no ticker is pending and when the time it
  asks for is before the last second a \<^verbatim>\<open>time.Time\<close> can hold, and otherwise either
  returns or keeps a ticker's loop running.
\<close>

theorem C7_precondition_panics:
  assumes "run_from start0 step0 ops = Inr w"
  shows "(step < 0 \<longrightarrow>
            NewWithStep start step = Inl (Panic ''fakeclock: NewWithStep with negative step'')) \<and>
         (0 \<le> step \<longrightarrow> (\<exists>w0. NewWithStep start step = Inr w0)) \<and>
         (delta < 0 \<longrightarrow>
            Clock_Add delta w = Inl (Panic ''fakeclock: Clock.Add with negative delta'')) \<and>
         (0 \<le> delta \<longrightarrow>
            (\<forall>m. Clock_Add delta w \<noteq> Inl (Panic m)) \<and>
            ((\<exists>w'. Clock_Add delta w = Inr ((), w')) \<or> Clock_Add delta w = Inl Nontermination)) \<and>
         (0 \<le> delta \<longrightarrow> tickers_of w = [] \<longrightarrow> (\<exists>w'. Clock_Add delta w = Inr ((), w'))) \<and>
         (0 \<le> delta \<longrightarrow> instant (now_of w) + delta < last_second \<longrightarrow>
            (\<exists>w'. Clock_Add delta w = Inr ((), w'))) \<and>
         (d \<le> 0 \<longrightarrow>
            Clock_NewTicker d w = Inl (Panic ''fakeclock: NewTicker with non-positive duration'')) \<and>
         (0 < d \<longrightarrow> (\<exists>k w'. Clock_NewTicker d w = Inr (k, w')))"
proof -
  have wf: "wellformed w" using assms by (rule run_from_wellformed)
  have v: "valid_time (now_of w)" using wf by (rule wellformed_now)
  have a: "0 \<le> delta \<longrightarrow>
            (\<forall>m. Clock_Add delta w \<noteq> Inl (Panic m)) \<and>
            ((\<exists>w'. Clock_Add delta w = Inr ((), w')) \<or> Clock_Add delta w = Inl Nontermination)"
    using Clock_Add_advanced [OF wf, of delta] by auto
  have b: "0 \<le> delta \<longrightarrow> tickers_of w = [] \<longrightarrow> (\<exists>w'. Clock_Add delta w = Inr ((), w'))"
    using Clock_Add_advanced [OF wf, of delta] by (auto simp: tickers_return_def)
  have c: "0 \<le> delta \<longrightarrow> instant (now_of w) + delta < last_second \<longrightarrow>
            (\<exists>w'. Clock_Add delta w = Inr ((), w'))"
  proof (intro impI)
    assume d: "0 \<le> delta" and r: "instant (now_of w) + delta < last_second"
    have "instant (Time_Add (now_of w) delta) = instant (now_of w) + delta"
      using v d r by (rule Time_Add_exact)
    moreover have "valid_time (Time_Add (now_of w) delta)" using v d by (rule valid_time_Add)
    ultimately have "early (Time_Add (now_of w) delta)" using r by (simp add: early_instant)
    then show "\<exists>w'. Clock_Add delta w = Inr ((), w')"
      using Clock_Add_early [OF wf d] by blast
  qed
  have e: "0 < d \<longrightarrow> (\<exists>k w'. Clock_NewTicker d w = Inr (k, w'))"
    using Clock_NewTicker_eq [of d w] by blast
  have f: "step < 0 \<longrightarrow>
            NewWithStep start step = Inl (Panic ''fakeclock: NewWithStep with negative step'')"
    "0 \<le> step \<longrightarrow> (\<exists>w0. NewWithStep start step = Inr w0)"
    "delta < 0 \<longrightarrow>
            Clock_Add delta w = Inl (Panic ''fakeclock: Clock.Add with negative delta'')"
    "d \<le> 0 \<longrightarrow>
            Clock_NewTicker d w = Inl (Panic ''fakeclock: NewTicker with non-positive duration'')"
    by (simp_all add: NewWithStep_def Clock_Add_def Clock_NewTicker_def)
  show ?thesis
    apply (intro conjI)
    apply (rule f(1))
    apply (rule f(2))
    apply (rule f(3))
    apply (rule a)
    apply (rule b)
    apply (rule c)
    apply (rule f(4))
    apply (rule e)
    done
qed

theorem C7_precondition_panics_witness:
  "run_from baseTime 0 [OpNewTimer 50, OpNewTicker 25] =
     Inr (projr (run_from baseTime 0 [OpNewTimer 50, OpNewTicker 25])) \<and>
   NewWithStep baseTime (- 1) = Inl (Panic ''fakeclock: NewWithStep with negative step'') \<and>
   (\<exists>w0. NewWithStep baseTime 0 = Inr w0) \<and>
   Clock_Add (- 1) (projr (run_from baseTime 0 [OpNewTimer 50, OpNewTicker 25])) =
     Inl (Panic ''fakeclock: Clock.Add with negative delta'') \<and>
   instant (now_of (projr (run_from baseTime 0 [OpNewTimer 50, OpNewTicker 25]))) + 60 < last_second \<and>
   (\<exists>w'. Clock_Add 60 (projr (run_from baseTime 0 [OpNewTimer 50, OpNewTicker 25])) = Inr ((), w')) \<and>
   run_from baseTime 0 [OpNewTimer 50] = Inr (projr (run_from baseTime 0 [OpNewTimer 50])) \<and>
   tickers_of (projr (run_from baseTime 0 [OpNewTimer 50])) = [] \<and>
   (\<exists>w'. Clock_Add 60 (projr (run_from baseTime 0 [OpNewTimer 50])) = Inr ((), w')) \<and>
   Clock_NewTicker 0 (projr (run_from baseTime 0 [OpNewTimer 50, OpNewTicker 25])) =
     Inl (Panic ''fakeclock: NewTicker with non-positive duration'') \<and>
   (\<exists>k w'. Clock_NewTicker 1 (projr (run_from baseTime 0 [OpNewTimer 50, OpNewTicker 25])) = Inr (k, w'))"
proof -
  have r: "run_from baseTime 0 [OpNewTimer 50, OpNewTicker 25] =
     Inr (projr (run_from baseTime 0 [OpNewTimer 50, OpNewTicker 25]))"
    by (simp add: eval_defs)
  have i: "instant (now_of (projr (run_from baseTime 0 [OpNewTimer 50, OpNewTicker 25]))) + 60
      < last_second"
    by (simp add: eval_defs instant_def last_second_def)
  have r0: "run_from baseTime 0 [OpNewTimer 50] = Inr (projr (run_from baseTime 0 [OpNewTimer 50]))"
    by (simp add: eval_defs)
  have t0: "tickers_of (projr (run_from baseTime 0 [OpNewTimer 50])) = []"
    by (simp add: eval_defs)
  have a0: "\<exists>w'. Clock_Add 60 (projr (run_from baseTime 0 [OpNewTimer 50])) = Inr ((), w')"
    using C7_precondition_panics [OF r0, of 0 baseTime 60 1] t0 by simp
  show ?thesis
    using r i r0 t0 a0 C7_precondition_panics [OF r, of "- 1" baseTime "- 1" 0]
      C7_precondition_panics [OF r, of 0 baseTime 60 1]
    by simp
qed

text \<open>
  C8, as the code has it: on a clock made by \<^verbatim>\<open>NewWithStep\<close> (which refuses a negative
  step), take any state \<open>w\<close> reached by a run of operations and run any further
  operations from it. The seconds of the current time at the end are not fewer than in
  \<open>w\<close>; and when the current time in \<open>w\<close> is before the last second a \<^verbatim>\<open>time.Time\<close> can
  hold, the current time at the end is not earlier than in \<open>w\<close>. With a single further
  operation this says that no operation moves the time back from there.
\<close>

theorem C8_time_monotone:
  assumes "run_from start step ops = Inr w" and "run xs w = Inr w'"
  shows "time_ext (now_of w) \<le> time_ext (now_of w') \<and>
         (early (now_of w) \<longrightarrow>
            \<not> Time_Before (now_of w') (now_of w) \<and> instant (now_of w) \<le> instant (now_of w'))"
proof -
  have wf: "wellformed w" using assms(1) by (rule run_from_wellformed)
  have wf': "wellformed w'" using wf assms(2) by (rule run_wellformed)
  have a: "time_ext (now_of w) \<le> time_ext (now_of w')" using wf assms(2) by (rule run_ext_mono)
  have b: "early (now_of w) \<longrightarrow>
            \<not> Time_Before (now_of w') (now_of w) \<and> instant (now_of w) \<le> instant (now_of w')"
  proof
    assume "early (now_of w)"
    with wf assms(2) have n: "\<not> Time_Before (now_of w') (now_of w)" by (rule run_now_mono)
    then have "instant (now_of w) \<le> instant (now_of w')"
      using wellformed_now [OF wf] wellformed_now [OF wf'] by (simp add: Time_Before_instant)
    with n show "\<not> Time_Before (now_of w') (now_of w) \<and> instant (now_of w) \<le> instant (now_of w')"
      by simp
  qed
  show ?thesis using a b by simp
qed

theorem C8_time_monotone_witness:
  "run_from baseTime 7 [OpNewTimer 10, OpNow] = Inr (projr (run_from baseTime 7 [OpNewTimer 10, OpNow])) \<and>
   run [OpNow, OpAdd 3, OpStop 0, OpPeek] (projr (run_from baseTime 7 [OpNewTimer 10, OpNow])) =
     Inr (projr (run [OpNow, OpAdd 3, OpStop 0, OpPeek] (projr (run_from baseTime 7 [OpNewTimer 10, OpNow])))) \<and>
   early (now_of (projr (run_from baseTime 7 [OpNewTimer 10, OpNow]))) \<and>
   now_of (projr (run_from baseTime 7 [OpNewTimer 10, OpNow])) = Time_Add baseTime 7 \<and>
   now_of (projr (run [OpNow, OpAdd 3, OpStop 0, OpPeek] (projr (run_from baseTime 7 [OpNewTimer 10, OpNow])))) =
     Time_Add baseTime 17 \<and>
   instant (now_of (projr (run_from baseTime 7 [OpNewTimer 10, OpNow])))
     \<le> instant (now_of (projr (run [OpNow, OpAdd 3, OpStop 0, OpPeek]
                              (projr (run_from baseTime 7 [OpNewTimer 10, OpNow])))))"
proof -
  have a: "run_from baseTime 7 [OpNewTimer 10, OpNow] =
      Inr (projr (run_from baseTime 7 [OpNewTimer 10, OpNow]))"
    by (simp add: eval_defs)
  have b: "run [OpNow, OpAdd 3, OpStop 0, OpPeek] (projr (run_from baseTime 7 [OpNewTimer 10, OpNow])) =
     Inr (projr (run [OpNow, OpAdd 3, OpStop 0, OpPeek] (projr (run_from baseTime 7 [OpNewTimer 10, OpNow]))))"
    by (simp add: eval_defs)
  have c: "now_of (projr (run_from baseTime 7 [OpNewTimer 10, OpNow])) = Time_Add baseTime 7"
    "now_of (projr (run [OpNow, OpAdd 3, OpStop 0, OpPeek] (projr (run_from baseTime 7 [OpNewTimer 10, OpNow])))) =
       Time_Add baseTime 17"
    by (simp_all add: eval_defs)
  have e: "early (now_of (projr (run_from baseTime 7 [OpNewTimer 10, OpNow])))"
    by (simp add: eval_defs early_def)
  from C8_time_monotone [OF a b] a b c e show ?thesis by blast
qed

text \<open>
  C8 in the wording of the specification fails: on a clock started at the last nanosecond of the
  last second, \<^verbatim>\<open>Add\<close> of one nanosecond moves the time back to the start of that
  second.
\<close>

theorem C8_counterexample:
  "run_from (Time_Unix 9223371974719179007 999999999) 0 [] =
     Inr (projr (run_from (Time_Unix 9223371974719179007 999999999) 0 [])) \<and>
   exec (OpAdd 1) (projr (run_from (Time_Unix 9223371974719179007 999999999) 0 [])) =
     Inr (projr (run_from (Time_Unix 9223371974719179007 999999999) 0 [OpAdd 1])) \<and>
   now_of (projr (run_from (Time_Unix 9223371974719179007 999999999) 0 [])) =
     \<lparr>time_ext = 9223372036854775807, time_nsec = 999999999\<rparr> \<and>
   now_of (projr (run_from (Time_Unix 9223371974719179007 999999999) 0 [OpAdd 1])) =
     \<lparr>time_ext = 9223372036854775807, time_nsec = 0\<rparr> \<and>
   Time_Before (now_of (projr (run_from (Time_Unix 9223371974719179007 999999999) 0 [OpAdd 1])))
     (now_of (projr (run_from (Time_Unix 9223371974719179007 999999999) 0 [])))"
  by (simp add: eval_defs)



text \<open>
  C10, as the code has it: in every state reached by a run of operations (\<^verbatim>\<open>Now\<close>,
  \<^verbatim>\<open>Peek\<close>, \<^verbatim>\<open>Add\<close>, \<^verbatim>\<open>NewTimer\<close>, \<^verbatim>\<open>NewTicker\<close>, \<^verbatim>\<open>Reset\<close>, \<^verbatim>\<open>Stop\<close>, and also a ticker's
  \<^verbatim>\<open>Stop\<close>, \<^verbatim>\<open>SetWatchFunc\<close> and receives) whose current time is before the last second
  a \<^verbatim>\<open>time.Time\<close> can hold, every pending timer has not fired and is due strictly later
  than the current time, and every pending ticker is due strictly later than the current
  time.
\<close>

theorem C10_pending_invariant:
  assumes "run_from start step ops = Inr w" and "early (now_of w)"
  shows "pending_inv w"
  using assms by (rule run_from_pending_inv)

theorem C10_pending_invariant_witness:
  "run_from baseTime 7 [OpNewTimer 50, OpNewTicker 25, OpAdd 30, OpNewTimer 5, OpNow] =
     Inr (projr (run_from baseTime 7 [OpNewTimer 50, OpNewTicker 25, OpAdd 30, OpNewTimer 5, OpNow])) \<and>
   early (now_of (projr (run_from baseTime 7
      [OpNewTimer 50, OpNewTicker 25, OpAdd 30, OpNewTimer 5, OpNow]))) \<and>
   timers_of (projr (run_from baseTime 7 [OpNewTimer 50, OpNewTicker 25, OpAdd 30, OpNewTimer 5, OpNow])) = [Some 0] \<and>
   tickers_of (projr (run_from baseTime 7 [OpNewTimer 50, OpNewTicker 25, OpAdd 30, OpNewTimer 5, OpNow])) = [Some 0] \<and>
   pending_inv (projr (run_from baseTime 7 [OpNewTimer 50, OpNewTicker 25, OpAdd 30, OpNewTimer 5, OpNow]))"
proof -
  have a: "run_from baseTime 7 [OpNewTimer 50, OpNewTicker 25, OpAdd 30, OpNewTimer 5, OpNow] =
     Inr (projr (run_from baseTime 7 [OpNewTimer 50, OpNewTicker 25, OpAdd 30, OpNewTimer 5, OpNow]))"
    by (simp add: eval_defs)
  have b: "timers_of (projr (run_from baseTime 7 [OpNewTimer 50, OpNewTicker 25, OpAdd 30, OpNewTimer 5, OpNow])) = [Some 0]"
    "tickers_of (projr (run_from baseTime 7 [OpNewTimer 50, OpNewTicker 25, OpAdd 30, OpNewTimer 5, OpNow])) = [Some 0]"
    by (simp_all add: eval_defs)
  have e: "early (now_of (projr (run_from baseTime 7
      [OpNewTimer 50, OpNewTicker 25, OpAdd 30, OpNewTimer 5, OpNow])))"
    by (simp add: eval_defs early_def)
  from C10_pending_invariant [OF a e] a b e show ?thesis by blast
qed

text \<open>
  C10 in the wording of the specification fails: on a clock started in the last second,
  \<^verbatim>\<open>NewTimer\<close> of one second leaves a pending timer that is due at the current time, not
  later.
\<close>

theorem C10_counterexample:
  "run_from (Time_Unix 9223371974719179007 0) 0 [OpNewTimer 1000000000] =
     Inr (projr (run_from (Time_Unix 9223371974719179007 0) 0 [OpNewTimer 1000000000])) \<and>
   timers_of (projr (run_from (Time_Unix 9223371974719179007 0) 0 [OpNewTimer 1000000000])) =
     [Some 0] \<and>
   timer_time (timer_mem
      (projr (run_from (Time_Unix 9223371974719179007 0) 0 [OpNewTimer 1000000000])) 0) =
     now_of (projr (run_from (Time_Unix 9223371974719179007 0) 0 [OpNewTimer 1000000000])) \<and>
   \<not> pending_inv (projr (run_from (Time_Unix 9223371974719179007 0) 0 [OpNewTimer 1000000000]))"
  by (simp add: eval_defs pending_inv_def)

end
